theory Spec2Isabelle
  imports Main "HOL-Library.Sublist" "HOL-Library.AList"
begin

section \<open>Python strings\<close>

text \<open>
  A Python \<open>str\<close> is a sequence of code points. It is modelled as \<open>string\<close>, one
  \<open>char\<close> for each code point, so the model covers the strings over U+0000 .. U+00FF;
  \<open>len\<close> is \<open>length\<close>. The tables below (\<open>str.isspace\<close>, the classes \<open>\s\<close> and
  \<open>\w\<close> of \<open>re\<close>, \<open>str.lower\<close>) are those of CPython on that range.
\<close>

definition isspace :: "char \<Rightarrow> bool" where
  "isspace c = (let n = (of_char c :: nat)
                in (9 \<le> n \<and> n \<le> 13) \<or> (28 \<le> n \<and> n \<le> 32) \<or> n = 133 \<or> n = 160)"

definition isword :: "char \<Rightarrow> bool" where
  "isword c = (let n = (of_char c :: nat)
               in (48 \<le> n \<and> n \<le> 57) \<or> (65 \<le> n \<and> n \<le> 90) \<or> n = 95 \<or> (97 \<le> n \<and> n \<le> 122)
                  \<or> n = 170 \<or> n = 178 \<or> n = 179 \<or> n = 181 \<or> n = 185 \<or> n = 186
                  \<or> (188 \<le> n \<and> n \<le> 190) \<or> (192 \<le> n \<and> n \<le> 214)
                  \<or> (216 \<le> n \<and> n \<le> 246) \<or> (248 \<le> n \<and> n \<le> 255))"

definition lower_char :: "char \<Rightarrow> char" where
  "lower_char c = (let n = (of_char c :: nat)
                   in if (65 \<le> n \<and> n \<le> 90) \<or> (192 \<le> n \<and> n \<le> 222 \<and> n \<noteq> 215)
                      then char_of (n + 32) else c)"

definition lower :: "string \<Rightarrow> string" where
  "lower s = map lower_char s"

text \<open>\<open>s.strip()\<close>: leading and trailing white space removed.\<close>

definition lstrip :: "string \<Rightarrow> string" where
  "lstrip s = dropWhile isspace s"

definition rstrip :: "string \<Rightarrow> string" where
  "rstrip s = rev (dropWhile isspace (rev s))"

definition strip :: "string \<Rightarrow> string" where
  "strip s = rstrip (lstrip s)"

text \<open>\<open>sub in s\<close> on strings.\<close>

fun contains :: "string \<Rightarrow> string \<Rightarrow> bool" where
  "contains sub [] = (sub = [])"
| "contains sub (c # cs) = (prefix sub (c # cs) \<or> contains sub cs)"

text \<open>\<open>s.split(d)\<close> for a separator of one character: never an empty list.\<close>

fun split_on :: "char \<Rightarrow> string \<Rightarrow> string list" where
  "split_on d [] = [[]]"
| "split_on d (c # cs) =
     (if c = d then [] # split_on d cs
      else (case split_on d cs of
              [] \<Rightarrow> [[c]]
            | w # ws \<Rightarrow> (c # w) # ws))"

text \<open>A text between single quotes.\<close>

definition quoted :: "string \<Rightarrow> string" where
  "quoted s = [CHR 0x27] @ s @ [CHR 0x27]"

text \<open>\<open>sep.join(xs)\<close>.\<close>

fun join :: "string \<Rightarrow> string list \<Rightarrow> string" where
  "join sep [] = []"
| "join sep [x] = x"
| "join sep (x # y # ys) = x @ sep @ join sep (y # ys)"

section \<open>Exceptions\<close>

text \<open>
  An exception is its class and the text \<open>str(e)\<close> gives. Every handler of the
  source is \<open>except Exception\<close>, which catches each of these classes.
\<close>

datatype exn =
    PermissionError string
  | ValueError string
  | FileNotFoundError string
  | FileExistsError string
  | NotADirectoryError string
  | IsADirectoryError string
  | UnicodeDecodeError string
  | OSError string
  | ShutilError string
  | TypeError string

fun str_exn :: "exn \<Rightarrow> string" where
  "str_exn (PermissionError m) = m"
| "str_exn (ValueError m) = m"
| "str_exn (FileNotFoundError m) = m"
| "str_exn (FileExistsError m) = m"
| "str_exn (NotADirectoryError m) = m"
| "str_exn (IsADirectoryError m) = m"
| "str_exn (UnicodeDecodeError m) = m"
| "str_exn (OSError m) = m"
| "str_exn (ShutilError m) = m"
| "str_exn (TypeError m) = m"

section \<open>Paths (pathlib on POSIX)\<close>

text \<open>
  A resolved absolute path is the list of its components below \<open>/\<close>; the empty list is
  \<open>/\<close> itself. The file system of the model has files and directories and no symbolic
  links, so \<open>Path.resolve()\<close> works on the text of the path alone: a path need not
  exist to be resolved, and \<open>..\<close> at \<open>/\<close> stays at \<open>/\<close>.
\<close>

type_synonym path = "string list"

text \<open>\<open>os.path.isabs\<close>.\<close>

definition isabs :: "string \<Rightarrow> bool" where
  "isabs s = (case s of [] \<Rightarrow> False | c # _ \<Rightarrow> c = CHR ''/'')"

text \<open>The components \<open>Path(s)\<close> keeps: empty ones and \<open>.\<close> are dropped, \<open>..\<close> stays.\<close>

definition Path_parts :: "string \<Rightarrow> string list" where
  "Path_parts s = filter (\<lambda>c. c \<noteq> [] \<and> c \<noteq> ''.'') (split_on CHR ''/'' s)"

text \<open>\<open>os.path.realpath\<close> without links: walk the components from a starting directory.\<close>

fun walk :: "path \<Rightarrow> string list \<Rightarrow> path" where
  "walk acc [] = acc"
| "walk acc (c # cs) = (if c = ''..'' then walk (butlast acc) cs else walk (acc @ [c]) cs)"

text \<open>
  \<open>P.resolve()\<close> for a path object with the components \<open>comps\<close>, read from the
  directory \<open>start\<close>. The lookup of a name that holds the character U+0000 raises
  \<open>ValueError\<close>.
\<close>

definition resolve_from :: "path \<Rightarrow> string list \<Rightarrow> exn + path" where
  "resolve_from start comps =
     (if CHR 0x00 \<in> set (concat comps) then Inl (ValueError ''embedded null byte'')
      else Inr (walk start comps))"

text \<open>\<open>Path(s).resolve()\<close>, in a process whose working directory is \<open>cwd\<close>.\<close>

definition resolve :: "path \<Rightarrow> string \<Rightarrow> exn + path" where
  "resolve cwd s = resolve_from (if isabs s then [] else cwd) (Path_parts s)"

text \<open>\<open>str(p)\<close> of a resolved path.\<close>

definition str_path :: "path \<Rightarrow> string" where
  "str_path p = (if p = [] then ''/'' else concat (map (\<lambda>c. CHR ''/'' # c) p))"

text \<open>\<open>p.is_relative_to(root)\<close>: \<open>root\<close> is \<open>p\<close> or one of its parents.\<close>

definition is_relative_to :: "path \<Rightarrow> path \<Rightarrow> bool" where
  "is_relative_to p root = prefix root p"

section \<open>MCPFilesystemServer: the path guard\<close>

text \<open>
  The server object holds \<open>allowed_directory\<close>, resolved when the server is made. The
  working directory of the process is kept beside it, since \<open>resolve\<close> reads it for a
  relative path.
\<close>

record server =
  allowed_directory :: path
  cwd :: path

text \<open>\<open>_is_path_allowed\<close>: any exception while resolving gives \<open>False\<close>.\<close>

definition is_path_allowed :: "server \<Rightarrow> string \<Rightarrow> bool" where
  "is_path_allowed srv p =
     (case resolve (cwd srv) p of
        Inl e \<Rightarrow> False
      | Inr resolved_path \<Rightarrow> is_relative_to resolved_path (allowed_directory srv))"

text \<open>
  \<open>_get_safe_path\<close>. For a relative \<open>p\<close> the path resolved is
  \<open>allowed_directory / p\<close>: the components of the root, then those of \<open>p\<close>.
\<close>

definition get_safe_path :: "server \<Rightarrow> string \<Rightarrow> exn + path" where
  "get_safe_path srv p =
     (case (if isabs p then resolve (cwd srv) p
            else resolve_from [] (allowed_directory srv @ Path_parts p)) of
        Inl e \<Rightarrow> Inl e
      | Inr safe_path \<Rightarrow>
          if \<not> is_path_allowed srv (str_path safe_path)
          then Inl (PermissionError (''Access denied to path: '' @ p))
          else Inr safe_path)"

text \<open>
  The components of a resolved path: not empty, not \<open>.\<close> or \<open>..\<close>, without a
  separator and without U+0000.
\<close>

definition wf_comp :: "string \<Rightarrow> bool" where
  "wf_comp c = (c \<noteq> [] \<and> c \<noteq> ''.'' \<and> c \<noteq> ''..'' \<and> CHR ''/'' \<notin> set c \<and> CHR 0x00 \<notin> set c)"

definition wf_path :: "path \<Rightarrow> bool" where
  "wf_path p = list_all wf_comp p"

section \<open>The file system\<close>

text \<open>
  A file holds bytes: \<open>Text s\<close> is a file whose bytes are the UTF-8 encoding of the
  string \<open>s\<close>, \<open>Binary b\<close> a file whose bytes \<open>b\<close> are not valid UTF-8. A directory
  lists its entries by name, in the order \<open>iterdir\<close> yields them. The whole file
  system is the directory \<open>/\<close>. Times, owners and mode bits are not part of the
  model, and no system call fails for lack of permission or space.
\<close>

datatype content = Text string | Binary string

datatype node = File content | Dir "(string \<times> node) list"

text \<open>UTF-8 takes one byte for a code point below U+0080 and two up to U+07FF.\<close>

definition utf8_len :: "string \<Rightarrow> nat" where
  "utf8_len s = sum_list (map (\<lambda>c. if (of_char c :: nat) < 128 then 1 else 2) s)"

text \<open>\<open>st_size\<close> of a file.\<close>

fun st_size :: "content \<Rightarrow> nat" where
  "st_size (Text s) = utf8_len s"
| "st_size (Binary b) = length b"

datatype errno = ENOENT | ENOTDIR | EEXIST | EISDIR | EBUSY

text \<open>
  The exception of a failed system call on the path \<open>p\<close>; its text is the one
  \<open>str(e)\<close> gives for a name that \<open>repr\<close> prints between single quotes as it is.
\<close>

fun os_error :: "errno \<Rightarrow> path \<Rightarrow> exn" where
  "os_error ENOENT p = FileNotFoundError (''[Errno 2] No such file or directory: '' @ quoted (str_path p))"
| "os_error ENOTDIR p = NotADirectoryError (''[Errno 20] Not a directory: '' @ quoted (str_path p))"
| "os_error EEXIST p = FileExistsError (''[Errno 17] File exists: '' @ quoted (str_path p))"
| "os_error EISDIR p = IsADirectoryError (''[Errno 21] Is a directory: '' @ quoted (str_path p))"
| "os_error EBUSY p = OSError (''[Errno 16] Device or resource busy: '' @ quoted (str_path p))"

text \<open>\<open>os.stat\<close>: the node at a path, or why there is none.\<close>

fun os_stat :: "node \<Rightarrow> path \<Rightarrow> errno + node" where
  "os_stat n [] = Inr n"
| "os_stat (File d) (c # cs) = Inl ENOTDIR"
| "os_stat (Dir es) (c # cs) =
     (case map_of es c of
        None \<Rightarrow> Inl ENOENT
      | Some n \<Rightarrow> os_stat n cs)"

text \<open>\<open>Path.exists\<close>, \<open>is_dir\<close> and \<open>is_file\<close> answer \<open>False\<close> where \<open>stat\<close> fails.\<close>

definition exists :: "node \<Rightarrow> path \<Rightarrow> bool" where
  "exists fs p = (case os_stat fs p of Inl e \<Rightarrow> False | Inr n \<Rightarrow> True)"

definition is_dir :: "node \<Rightarrow> path \<Rightarrow> bool" where
  "is_dir fs p = (case os_stat fs p of Inr (Dir es) \<Rightarrow> True | _ \<Rightarrow> False)"

definition is_file :: "node \<Rightarrow> path \<Rightarrow> bool" where
  "is_file fs p = (case os_stat fs p of Inr (File d) \<Rightarrow> True | _ \<Rightarrow> False)"

text \<open>\<open>Path.iterdir\<close> of a directory: its entries.\<close>

definition iterdir :: "node \<Rightarrow> path \<Rightarrow> (string \<times> node) list" where
  "iterdir fs p = (case os_stat fs p of Inr (Dir es) \<Rightarrow> es | _ \<Rightarrow> [])"

text \<open>
  \<open>put p x fs\<close> is \<open>fs\<close> with the node \<open>x\<close> at \<open>p\<close>, where the parent of \<open>p\<close> is a
  directory of \<open>fs\<close>; \<open>remove p fs\<close> is \<open>fs\<close> without the entry at \<open>p\<close>. Elsewhere both
  leave \<open>fs\<close> as it is.
\<close>

fun put :: "path \<Rightarrow> node \<Rightarrow> node \<Rightarrow> node" where
  "put [] x n = x"
| "put (c # cs) x (File d) = File d"
| "put (c # cs) x (Dir es) =
     (case map_of es c of
        Some n \<Rightarrow> Dir (AList.update c (put cs x n) es)
      | None \<Rightarrow> if cs = [] then Dir (AList.update c x es) else Dir es)"

fun remove :: "path \<Rightarrow> node \<Rightarrow> node" where
  "remove [] n = n"
| "remove (c # cs) (File d) = File d"
| "remove (c # cs) (Dir es) =
     (if cs = [] then Dir (AList.delete c es)
      else (case map_of es c of
              Some n \<Rightarrow> Dir (AList.update c (remove cs n) es)
            | None \<Rightarrow> Dir es))"

text \<open>
  A call that changes the file system returns what it raised, if anything, and the
  file system it leaves.
\<close>

type_synonym 'a io = "(exn + 'a) \<times> node"

text \<open>\<open>os.mkdir(p)\<close>.\<close>

definition os_mkdir :: "node \<Rightarrow> path \<Rightarrow> unit io" where
  "os_mkdir fs p =
     (if p = [] then (Inl (os_error EEXIST p), fs)
      else (case os_stat fs (butlast p) of
              Inl e \<Rightarrow> (Inl (os_error e p), fs)
            | Inr (File d) \<Rightarrow> (Inl (os_error ENOTDIR p), fs)
            | Inr (Dir es) \<Rightarrow>
                (case map_of es (last p) of
                   Some n \<Rightarrow> (Inl (os_error EEXIST p), fs)
                 | None \<Rightarrow> (Inr (), put p (Dir []) fs))))"

text \<open>
  \<open>Path.mkdir(parents=True, exist_ok=True)\<close>: \<open>FileNotFoundError\<close> sends it to the
  parent first and then to \<open>mkdir(parents=False, exist_ok=True)\<close>; any other
  \<open>OSError\<close> is dropped when the path is a directory.
\<close>

definition mkdir_exist_ok :: "node \<Rightarrow> path \<Rightarrow> unit io" where
  "mkdir_exist_ok fs p =
     (case os_mkdir fs p of
        (Inr u, fs') \<Rightarrow> (Inr (), fs')
      | (Inl (FileNotFoundError m), fs') \<Rightarrow> (Inl (FileNotFoundError m), fs')
      | (Inl e, fs') \<Rightarrow> if is_dir fs' p then (Inr (), fs') else (Inl e, fs'))"

function mkdir_parents :: "node \<Rightarrow> path \<Rightarrow> unit io" where
  "mkdir_parents fs p =
     (case os_mkdir fs p of
        (Inr u, fs') \<Rightarrow> (Inr (), fs')
      | (Inl (FileNotFoundError m), fs') \<Rightarrow>
          if p = [] then (Inl (FileNotFoundError m), fs')
          else (case mkdir_parents fs' (butlast p) of
                  (Inl e, fs'') \<Rightarrow> (Inl e, fs'')
                | (Inr u, fs'') \<Rightarrow> mkdir_exist_ok fs'' p)
      | (Inl e, fs') \<Rightarrow> if is_dir fs' p then (Inr (), fs') else (Inl e, fs'))"
  by pat_completeness auto
termination
  by (relation "measure (\<lambda>(fs, p). length p)") auto

text \<open>
  \<open>Path.write_text(content, encoding='utf-8')\<close>: the file is opened for writing,
  which creates or truncates it, and on POSIX the text is written as it is. Every
  string of the model has a UTF-8 encoding.
\<close>

definition write_text :: "node \<Rightarrow> path \<Rightarrow> string \<Rightarrow> unit io" where
  "write_text fs p data =
     (if p = [] then (Inl (os_error EISDIR p), fs)
      else (case os_stat fs (butlast p) of
              Inl e \<Rightarrow> (Inl (os_error e p), fs)
            | Inr (File d) \<Rightarrow> (Inl (os_error ENOTDIR p), fs)
            | Inr (Dir es) \<Rightarrow>
                (case map_of es (last p) of
                   Some (Dir es') \<Rightarrow> (Inl (os_error EISDIR p), fs)
                 | _ \<Rightarrow> (Inr (), put p (File (Text data)) fs))))"

text \<open>
  Reading in text mode translates the line ends \<open>\r\n\<close> and \<open>\r\<close> to \<open>\n\<close>
  (\<open>newline=None\<close>, the default of \<open>open\<close>).
\<close>

fun universal_newlines :: "string \<Rightarrow> string" where
  "universal_newlines [] = []"
| "universal_newlines [c] = (if c = CHR 0x0D then [CHR 0x0A] else [c])"
| "universal_newlines (c # d # cs) =
     (if c = CHR 0x0D \<and> d = CHR 0x0A then CHR 0x0A # universal_newlines cs
      else if c = CHR 0x0D then CHR 0x0A # universal_newlines (d # cs)
      else c # universal_newlines (d # cs))"

definition read_text :: "node \<Rightarrow> path \<Rightarrow> exn + string" where
  "read_text fs p =
     (case os_stat fs p of
        Inl e \<Rightarrow> Inl (os_error e p)
      | Inr (Dir es) \<Rightarrow> Inl (os_error EISDIR p)
      | Inr (File (Text s)) \<Rightarrow> Inr (universal_newlines s)
      | Inr (File (Binary b)) \<Rightarrow>
          Inl (UnicodeDecodeError ''utf-8 codec cannot decode the bytes of the file''))"

text \<open>The bytes of a file; the UTF-8 encoding of a code point up to U+00FF.\<close>

definition utf8_encode :: "string \<Rightarrow> string" where
  "utf8_encode s =
     concat (map (\<lambda>c. let n = (of_char c :: nat)
                        in if n < 128 then [c]
                           else [char_of (192 + n div 64), char_of (128 + n mod 64)]) s)"

definition read_bytes :: "node \<Rightarrow> path \<Rightarrow> exn + string" where
  "read_bytes fs p =
     (case os_stat fs p of
        Inl e \<Rightarrow> Inl (os_error e p)
      | Inr (Dir es) \<Rightarrow> Inl (os_error EISDIR p)
      | Inr (File (Text s)) \<Rightarrow> Inr (utf8_encode s)
      | Inr (File (Binary b)) \<Rightarrow> Inr b)"

text \<open>\<open>Path.unlink\<close>, and \<open>shutil.rmtree\<close>, which cannot remove \<open>/\<close> itself.\<close>

definition unlink :: "node \<Rightarrow> path \<Rightarrow> (exn + unit) \<times> node" where
  "unlink fs p =
     (case os_stat fs p of
        Inl e \<Rightarrow> (Inl (os_error e p), fs)
      | Inr (Dir es) \<Rightarrow> (Inl (os_error EISDIR p), fs)
      | Inr (File d) \<Rightarrow> (Inr (), remove p fs))"

definition rmtree :: "node \<Rightarrow> path \<Rightarrow> (exn + unit) \<times> node" where
  "rmtree fs p =
     (case os_stat fs p of
        Inl e \<Rightarrow> (Inl (os_error e p), fs)
      | Inr (File d) \<Rightarrow> (Inl (os_error ENOTDIR p), fs)
      | Inr (Dir es) \<Rightarrow> if p = [] then (Inl (os_error EBUSY p), Dir []) else (Inr (), remove p fs))"

text \<open>
  \<open>os.rename(src, dst)\<close> within one file system: a file replaces a file, nothing
  replaces a directory that holds something, and a directory does not move below
  itself.
\<close>

datatype rename_error = RenameInval | RenameNotDir | RenameIsDir | RenameNoEnt | RenameNotEmpty | RenameBusy

definition os_rename :: "node \<Rightarrow> path \<Rightarrow> path \<Rightarrow> (rename_error + unit) \<times> node" where
  "os_rename fs src dst =
     (case os_stat fs src of
        Inl e \<Rightarrow> (Inl (if e = ENOTDIR then RenameNotDir else RenameNoEnt), fs)
      | Inr n \<Rightarrow>
          if src = [] \<or> dst = [] then (Inl RenameBusy, fs)
          else if src = dst then (Inr (), fs)
          else if strict_prefix src dst then
            (case n of Dir es \<Rightarrow> (Inl RenameInval, fs) | File d \<Rightarrow> (Inl RenameNotDir, fs))
          else (case os_stat fs (butlast dst) of
                  Inl e \<Rightarrow> (Inl (if e = ENOTDIR then RenameNotDir else RenameNoEnt), fs)
                | Inr (File d) \<Rightarrow> (Inl RenameNotDir, fs)
                | Inr (Dir es) \<Rightarrow>
                    (case (n, map_of es (last dst)) of
                       (File d, Some (Dir es')) \<Rightarrow> (Inl RenameIsDir, fs)
                     | (Dir es', Some (File d)) \<Rightarrow> (Inl RenameNotDir, fs)
                     | (Dir es', Some (Dir es'')) \<Rightarrow>
                         if es'' = []
                         then (Inr (), put dst n (remove src fs))
                         else (Inl RenameNotEmpty, fs)
                     | _ \<Rightarrow> (Inr (), put dst n (remove src fs)))))"

text \<open>
  \<open>shutil.move(src, dst)\<close>, as \<open>move_file\<close> calls it: the parent of \<open>dst\<close> is a
  directory by then. A destination that is a directory takes the source under the
  source's own name. When \<open>os.rename\<close> fails, a directory is copied, unless it
  would go below itself, and the copy starts by creating the destination; a file is
  copied by opening the destination for writing.
\<close>

definition shutil_move :: "node \<Rightarrow> path \<Rightarrow> path \<Rightarrow> unit io" where
  "shutil_move fs src dst =
     (if is_dir fs dst \<and> src = dst then
        (case os_rename fs src dst of
           (Inl e, fs') \<Rightarrow> (Inl (os_error EBUSY src), fs')
         | (Inr u, fs') \<Rightarrow> (Inr (), fs'))
      else
        (let real_dst = (if is_dir fs dst then (if src = [] then dst else dst @ [last src]) else dst)
         in if is_dir fs dst \<and> exists fs real_dst
            then (Inl (ShutilError (''Destination path '' @ quoted (str_path real_dst)
                                     @ '' already exists'')), fs)
            else (case os_rename fs src real_dst of
                    (Inr u, fs') \<Rightarrow> (Inr (), fs')
                  | (Inl e, fs') \<Rightarrow>
                      if is_dir fs' src then
                        (if prefix src dst
                         then (Inl (ShutilError (''Cannot move a directory '' @ quoted (str_path src)
                                      @ '' into itself '' @ quoted (str_path dst) @ ''.'')), fs')
                         else (case os_mkdir fs' real_dst of
                                 (Inl e', fs'') \<Rightarrow> (Inl e', fs'')
                               | (Inr u, fs'') \<Rightarrow> (Inr (), put real_dst (case os_stat fs' src of Inr n \<Rightarrow> n | Inl x \<Rightarrow> Dir []) (remove src fs''))))
                      else (case read_bytes fs' src of
                              Inl e' \<Rightarrow> (Inl e', fs')
                            | Inr b \<Rightarrow>
                                (case write_text fs' real_dst [] of
                                   (Inl e', fs'') \<Rightarrow> (Inl e', fs'')
                                 | (Inr u, fs'') \<Rightarrow>
                                     (Inr (), put real_dst (case os_stat fs' src of Inr n \<Rightarrow> n | Inl x \<Rightarrow> File (Text [])) (remove src fs'')))))))"

section \<open>Results of the operations\<close>

text \<open>
  An operation returns a dictionary, kept as the list of its keys and values in the
  order they were written. The entries of a listing are dictionaries with the keys
  \<open>name\<close>, \<open>type\<close>, \<open>size\<close> and \<open>modified\<close>; the last one is a time and is left
  out. \<open>Opaque\<close> is a value the model does not follow: a time, mode bits, the size
  of a directory.
\<close>

record item =
  item_name :: string
  item_type :: string
  item_size :: "nat option"

datatype pyval = S string | N nat | PyNone | Items "item list" | Opaque

type_synonym payload = "(string \<times> pyval) list"

text \<open>\<open>str(n)\<close> of a natural number.\<close>

definition digit :: "nat \<Rightarrow> char" where
  "digit n = char_of (48 + n)"

function str_nat :: "nat \<Rightarrow> string" where
  "str_nat n = (if n < 10 then [digit n] else str_nat (n div 10) @ [digit (n mod 10)])"
  by pat_completeness auto
termination
  by (relation "measure (\<lambda>n. n)") auto

declare str_nat.simps [simp del]

text \<open>
  A value inside an f-string. The text of a list of entries and of an \<open>Opaque\<close>
  value is not followed: neither is ever read in that place.
\<close>

fun fmt :: "pyval \<Rightarrow> string" where
  "fmt (S s) = s"
| "fmt (N n) = str_nat n"
| "fmt PyNone = ''None''"
| "fmt (Items xs) = ''[...]''"
| "fmt Opaque = ''...''"

definition error_payload :: "string \<Rightarrow> payload" where
  "error_payload m = [(''error'', S m)]"

text \<open>\<open>"error" in r\<close> and \<open>r['error']\<close>, which is read only where the key is there.\<close>

definition has_error :: "payload \<Rightarrow> bool" where
  "has_error r = (map_of r ''error'' \<noteq> None)"

definition get_error :: "payload \<Rightarrow> string" where
  "get_error r = (case map_of r ''error'' of Some v \<Rightarrow> fmt v | None \<Rightarrow> [])"

text \<open>\<open>except Exception as e: return {"error": str(e)}\<close>.\<close>

definition catch :: "exn + payload \<Rightarrow> payload" where
  "catch x = (case x of Inl e \<Rightarrow> error_payload (str_exn e) | Inr r \<Rightarrow> r)"

definition catch_io :: "payload io \<Rightarrow> payload \<times> node" where
  "catch_io x = (case x of (Inl e, fs) \<Rightarrow> (error_payload (str_exn e), fs) | (Inr r, fs) \<Rightarrow> (r, fs))"

section \<open>MCPFilesystemServer: the seven operations\<close>

text \<open>\<open>__init__\<close>: the root is resolved once and has to exist.\<close>

definition init :: "path \<Rightarrow> node \<Rightarrow> string \<Rightarrow> exn + server" where
  "init wd fs allowed =
     (case resolve wd allowed of
        Inl e \<Rightarrow> Inl e
      | Inr root \<Rightarrow>
          if \<not> exists fs root then Inl (ValueError (''Directory does not exist: '' @ str_path root))
          else Inr \<lparr>allowed_directory = root, cwd = wd\<rparr>)"

definition item_info :: "string \<times> node \<Rightarrow> item" where
  "item_info e =
     (case e of
        (n, Dir es) \<Rightarrow> \<lparr>item_name = n, item_type = ''directory'', item_size = None\<rparr>
      | (n, File d) \<Rightarrow> \<lparr>item_name = n, item_type = ''file'', item_size = Some (st_size d)\<rparr>)"

definition list_directory :: "server \<Rightarrow> string \<Rightarrow> node \<Rightarrow> payload" where
  "list_directory srv p fs = catch
     (case get_safe_path srv p of
        Inl e \<Rightarrow> Inl e
      | Inr safe_path \<Rightarrow>
          if \<not> exists fs safe_path then Inr (error_payload (''Directory does not exist: '' @ p))
          else if \<not> is_dir fs safe_path then Inr (error_payload (''Path is not a directory: '' @ p))
          else (let items = map item_info (iterdir fs safe_path)
                in Inr [(''path'', S (str_path safe_path)),
                        (''items'', Items items),
                        (''count'', N (length items))]))"

definition read_file :: "server \<Rightarrow> string \<Rightarrow> node \<Rightarrow> payload" where
  "read_file srv p fs = catch
     (case get_safe_path srv p of
        Inl e \<Rightarrow> Inl e
      | Inr safe_path \<Rightarrow>
          if \<not> exists fs safe_path then Inr (error_payload (''File does not exist: '' @ p))
          else if \<not> is_file fs safe_path then Inr (error_payload (''Path is not a file: '' @ p))
          else (case read_text fs safe_path of
                  Inr content \<Rightarrow>
                    Inr [(''path'', S (str_path safe_path)),
                         (''content'', S content),
                         (''size'', N (length content)),
                         (''type'', S ''text'')]
                | Inl (UnicodeDecodeError m) \<Rightarrow>
                    (case read_bytes fs safe_path of
                       Inl e \<Rightarrow> Inl e
                     | Inr b \<Rightarrow>
                         (let content = take 1024 b
                          in Inr [(''path'', S (str_path safe_path)),
                                  (''content'', S (''<Binary file, first 1024 bytes: ''
                                                   @ str_nat (length content) @ '' bytes>'')),
                                  (''size'', N (length b)),
                                  (''type'', S ''binary'')]))
                | Inl e \<Rightarrow> Inl e))"

definition write_file :: "server \<Rightarrow> string \<Rightarrow> string \<Rightarrow> node \<Rightarrow> payload \<times> node" where
  "write_file srv p content fs = catch_io
     (case get_safe_path srv p of
        Inl e \<Rightarrow> (Inl e, fs)
      | Inr safe_path \<Rightarrow>
          (case mkdir_parents fs (butlast safe_path) of
             (Inl e, fs1) \<Rightarrow> (Inl e, fs1)
           | (Inr u, fs1) \<Rightarrow>
               (case write_text fs1 safe_path content of
                  (Inl e, fs2) \<Rightarrow> (Inl e, fs2)
                | (Inr u, fs2) \<Rightarrow>
                    (Inr [(''path'', S (str_path safe_path)),
                          (''size'', N (length content)),
                          (''message'', S ''File written successfully'')], fs2))))"

definition create_directory :: "server \<Rightarrow> string \<Rightarrow> node \<Rightarrow> payload \<times> node" where
  "create_directory srv p fs = catch_io
     (case get_safe_path srv p of
        Inl e \<Rightarrow> (Inl e, fs)
      | Inr safe_path \<Rightarrow>
          (case mkdir_parents fs safe_path of
             (Inl e, fs1) \<Rightarrow> (Inl e, fs1)
           | (Inr u, fs1) \<Rightarrow>
               (Inr [(''path'', S (str_path safe_path)),
                     (''message'', S ''Directory created successfully'')], fs1)))"

definition delete_file :: "server \<Rightarrow> string \<Rightarrow> node \<Rightarrow> payload \<times> node" where
  "delete_file srv p fs = catch_io
     (case get_safe_path srv p of
        Inl e \<Rightarrow> (Inl e, fs)
      | Inr safe_path \<Rightarrow>
          if \<not> exists fs safe_path then (Inr (error_payload (''Path does not exist: '' @ p)), fs)
          else if is_file fs safe_path then
            (case unlink fs safe_path of
               (Inl e, fs1) \<Rightarrow> (Inl e, fs1)
             | (Inr u, fs1) \<Rightarrow>
                 (Inr [(''path'', S (str_path safe_path)),
                       (''message'', S ''File deleted successfully'')], fs1))
          else if is_dir fs safe_path then
            (case rmtree fs safe_path of
               (Inl e, fs1) \<Rightarrow> (Inl e, fs1)
             | (Inr u, fs1) \<Rightarrow>
                 (Inr [(''path'', S (str_path safe_path)),
                       (''message'', S ''Directory deleted successfully'')], fs1))
          else (Inr (error_payload (''Unknown path type: '' @ p)), fs))"

definition move_file :: "server \<Rightarrow> string \<Rightarrow> string \<Rightarrow> node \<Rightarrow> payload \<times> node" where
  "move_file srv source destination fs = catch_io
     (case get_safe_path srv source of
        Inl e \<Rightarrow> (Inl e, fs)
      | Inr safe_source \<Rightarrow>
          (case get_safe_path srv destination of
             Inl e \<Rightarrow> (Inl e, fs)
           | Inr safe_dest \<Rightarrow>
               if \<not> exists fs safe_source
               then (Inr (error_payload (''Source does not exist: '' @ source)), fs)
               else (case mkdir_parents fs (butlast safe_dest) of
                       (Inl e, fs1) \<Rightarrow> (Inl e, fs1)
                     | (Inr u, fs1) \<Rightarrow>
                         (case shutil_move fs1 safe_source safe_dest of
                            (Inl e, fs2) \<Rightarrow> (Inl e, fs2)
                          | (Inr u, fs2) \<Rightarrow>
                              (Inr [(''source'', S (str_path safe_source)),
                                    (''destination'', S (str_path safe_dest)),
                                    (''message'', S ''File moved successfully'')], fs2)))))"

text \<open>\<open>Path.name\<close>: the last component, empty for \<open>/\<close>.\<close>

definition name_of :: "path \<Rightarrow> string" where
  "name_of p = (if p = [] then [] else last p)"

definition get_file_info :: "server \<Rightarrow> string \<Rightarrow> node \<Rightarrow> payload" where
  "get_file_info srv p fs = catch
     (case get_safe_path srv p of
        Inl e \<Rightarrow> Inl e
      | Inr safe_path \<Rightarrow>
          if \<not> exists fs safe_path then Inr (error_payload (''Path does not exist: '' @ p))
          else
          (case os_stat fs safe_path of
             Inl e \<Rightarrow> Inl (os_error e safe_path)
           | Inr n \<Rightarrow>
               Inr [(''path'', S (str_path safe_path)),
                    (''name'', S (name_of safe_path)),
                    (''type'', S (case n of Dir es \<Rightarrow> ''directory'' | File d \<Rightarrow> ''file'')),
                    (''size'', (case n of Dir es \<Rightarrow> Opaque | File d \<Rightarrow> N (st_size d))),
                    (''created'', Opaque),
                    (''modified'', Opaque),
                    (''permissions'', Opaque)]))"

section \<open>Regular expressions\<close>

text \<open>
  The patterns of the agent are sequences of literals, repeated character classes,
  groups around one repeated class, back references and \<open>$\<close>. The matcher tries
  the alternatives of each repetition in the order \<open>re\<close> does and returns the groups
  of the first way to match the whole pattern. All patterns are compiled with
  \<open>re.DOTALL\<close>, so \<open>.\<close> is any character.
\<close>

datatype cls = AnyChar | SpaceCls | WordCls | QuoteCls

fun in_cls :: "cls \<Rightarrow> char \<Rightarrow> bool" where
  "in_cls AnyChar c = True"
| "in_cls SpaceCls c = isspace c"
| "in_cls WordCls c = isword c"
| "in_cls QuoteCls c = (c = CHR 0x27 \<or> c = CHR 0x22)"

text \<open>The quantifiers \<open>?\<close>, \<open>*\<close>, \<open>*?\<close> and \<open>+\<close>.\<close>

datatype quant = Opt | Star | LazyStar | Plus

datatype atom =
    Lit string
  | Rep quant cls
  | Group nat quant cls
  | Backref nat
  | EndOfString

type_synonym groups = "nat \<Rightarrow> string option"

text \<open>
  The ways \<open>X*\<close> can split the input into what it takes and what it leaves, the
  longest first.
\<close>

fun greedy :: "cls \<Rightarrow> string \<Rightarrow> (string \<times> string) list" where
  "greedy c [] = [([], [])]"
| "greedy c (x # xs) =
     (if in_cls c x then map (\<lambda>(t, r). (x # t, r)) (greedy c xs) @ [([], x # xs)]
      else [([], x # xs)])"

definition cands :: "quant \<Rightarrow> cls \<Rightarrow> string \<Rightarrow> (string \<times> string) list" where
  "cands q c s =
     (case q of
        Star \<Rightarrow> greedy c s
      | LazyStar \<Rightarrow> rev (greedy c s)
      | Plus \<Rightarrow> butlast (greedy c s)
      | Opt \<Rightarrow> (case s of
                  [] \<Rightarrow> [([], [])]
                | x # xs \<Rightarrow> if in_cls c x then [([x], xs), ([], s)] else [([], s)]))"

fun first_some :: "('a \<Rightarrow> 'b option) \<Rightarrow> 'a list \<Rightarrow> 'b option" where
  "first_some f [] = None"
| "first_some f (x # xs) = (case f x of Some y \<Rightarrow> Some y | None \<Rightarrow> first_some f xs)"

text \<open>
  One atom, followed by the rest of the pattern \<open>k\<close>. \<open>$\<close> holds at the end of the
  input and before a line feed that ends it.
\<close>

fun step :: "atom \<Rightarrow> (groups \<Rightarrow> string \<Rightarrow> groups option) \<Rightarrow> groups \<Rightarrow> string \<Rightarrow> groups option" where
  "step (Lit l) k g s = (if prefix l s then k g (drop (length l) s) else None)"
| "step (Rep q c) k g s = first_some (\<lambda>(t, r). k g r) (cands q c s)"
| "step (Group n q c) k g s = first_some (\<lambda>(t, r). k (g(n \<mapsto> t)) r) (cands q c s)"
| "step (Backref n) k g s =
     (case g n of
        None \<Rightarrow> None
      | Some t \<Rightarrow> if prefix t s then k g (drop (length t) s) else None)"
| "step EndOfString k g s = (if s = [] \<or> s = [CHR 0x0A] then k g s else None)"

definition accept :: "groups \<Rightarrow> string \<Rightarrow> groups option" where
  "accept g s = Some g"

text \<open>A pattern run from the groups captured so far.\<close>

definition run :: "atom list \<Rightarrow> groups \<Rightarrow> string \<Rightarrow> groups option" where
  "run pat = foldr step pat accept"

text \<open>\<open>re.match\<close>: the pattern at the start of the input.\<close>

definition re_match :: "atom list \<Rightarrow> string \<Rightarrow> groups option" where
  "re_match pat s = run pat Map.empty s"

text \<open>\<open>re.search\<close>: the pattern at the first position where it matches.\<close>

fun re_search :: "atom list \<Rightarrow> string \<Rightarrow> groups option" where
  "re_search pat [] = re_match pat []"
| "re_search pat (c # cs) =
     (case re_match pat (c # cs) of
        Some g \<Rightarrow> Some g
      | None \<Rightarrow> re_search pat cs)"

text \<open>\<open>m.group(n)\<close> of a group that took part in the match.\<close>

definition group :: "groups \<Rightarrow> nat \<Rightarrow> string" where
  "group g n = (case g n of Some t \<Rightarrow> t | None \<Rightarrow> [])"

section \<open>DesktopAgent: tool calls\<close>

text \<open>
  The source prints a cross or a check mark in front of its replies; the two marks
  are written \<open>[x]\<close> and \<open>[v]\<close> here.
\<close>

definition cross_mark :: string where
  "cross_mark = ''[x]''"

definition check_mark :: string where
  "check_mark = ''[v]''"

definition valid_tools :: "string list" where
  "valid_tools = [''list_directory'', ''read_file'', ''write_file'', ''create_directory'',
                  ''delete_file'', ''move_file'', ''get_file_info'']"

text \<open>
  \<open>TOOL_CALL:\s*(\w+)\s*\((.*?)\)\<close> and the same with \<open>USE_TOOL:\<close>.
\<close>

definition tool_call_pattern :: "string \<Rightarrow> atom list" where
  "tool_call_pattern keyword =
     [Lit keyword, Rep Star SpaceCls, Group 1 Plus WordCls, Rep Star SpaceCls,
      Lit ''('', Group 2 LazyStar AnyChar, Lit '')'']"

definition tool_call_patterns :: "atom list list" where
  "tool_call_patterns = [tool_call_pattern ''TOOL_CALL:'', tool_call_pattern ''USE_TOOL:'']"

text \<open>
  \<open>process_user_input\<close> from the response of the model to the call of
  \<open>execute_tool\<close>: the first pattern found in the response gives the tool name and
  the arguments; an unknown name is replaced or refused.
\<close>

datatype tool_step = NoToolCall | Refused string | Execute string string

definition check_tool_name :: "string \<Rightarrow> string \<Rightarrow> tool_step" where
  "check_tool_name tool_name tool_args =
     (if tool_name \<notin> set valid_tools then
        (if contains ''list'' (lower tool_name)
         then Execute ''list_directory'' (if tool_args = [] then ''.'' else tool_args)
         else Refused (cross_mark @ '' Unknown tool: '' @ tool_name @ ''. Available tools: ''
                       @ join '', '' valid_tools))
      else Execute tool_name tool_args)"

definition extract_tool_call :: "string \<Rightarrow> groups option" where
  "extract_tool_call response = first_some (\<lambda>pattern. re_search pattern response) tool_call_patterns"

definition tool_call_of_response :: "string \<Rightarrow> tool_step" where
  "tool_call_of_response response =
     (case extract_tool_call response of
        None \<Rightarrow> NoToolCall
      | Some tool_call_match \<Rightarrow>
          check_tool_name (group tool_call_match 1) (strip (group tool_call_match 2)))"

text \<open>\<open>parse_tool_arguments\<close>, for every tool but \<open>write_file\<close>.\<close>

definition unquote :: "string \<Rightarrow> string" where
  "unquote part =
     (if (prefix [CHR 0x22] part \<and> suffix [CHR 0x22] part)
         \<or> (prefix [CHR 0x27] part \<and> suffix [CHR 0x27] part)
      then butlast (tl part) else part)"

definition parse_tool_arguments :: "string \<Rightarrow> string list" where
  "parse_tool_arguments args_str =
     (if strip args_str = [] then [''.'']
      else map (\<lambda>part. unquote (strip part)) (split_on CHR '','' args_str))"

text \<open>
  The pattern of \<open>execute_tool\<close> for \<open>write_file\<close>,
  \<open>^\s*(['"]?)(.*?)\1\s*,\s*(['"]?)(.*)\3\s*$\<close>, used with \<open>re.match\<close>, where
  \<open>^\<close> always holds.
\<close>

definition write_file_pattern :: "atom list" where
  "write_file_pattern =
     [Rep Star SpaceCls, Group 1 Opt QuoteCls, Group 2 LazyStar AnyChar, Backref 1,
      Rep Star SpaceCls, Lit '','', Rep Star SpaceCls, Group 3 Opt QuoteCls,
      Group 4 Star AnyChar, Backref 3, Rep Star SpaceCls, EndOfString]"

definition parse_write_file_arguments :: "string \<Rightarrow> payload + string list" where
  "parse_write_file_arguments tool_args =
     (case re_match write_file_pattern tool_args of
        Some m \<Rightarrow> Inr [strip (group m 2), strip (group m 4)]
      | None \<Rightarrow> Inl (error_payload (''Invalid arguments for write_file: '' @ tool_args
                                     @ ''. Expected '' @ quoted ''path'' @ '', '' @ quoted ''content'')))"

text \<open>
  A tool called with one argument. \<open>move_file\<close> and \<open>write_file\<close> take two, and
  Python raises \<open>TypeError\<close> for the missing one.
\<close>

definition call_tool1 :: "server \<Rightarrow> string \<Rightarrow> string \<Rightarrow> node \<Rightarrow> payload io" where
  "call_tool1 srv tool_name a fs =
     (if tool_name = ''list_directory'' then (Inr (list_directory srv a fs), fs)
      else if tool_name = ''read_file'' then (Inr (read_file srv a fs), fs)
      else if tool_name = ''create_directory'' then
        (case create_directory srv a fs of (r, fs') \<Rightarrow> (Inr r, fs'))
      else if tool_name = ''delete_file'' then
        (case delete_file srv a fs of (r, fs') \<Rightarrow> (Inr r, fs'))
      else if tool_name = ''get_file_info'' then (Inr (get_file_info srv a fs), fs)
      else if tool_name = ''move_file'' then
        (Inl (TypeError (''MCPFilesystemServer.move_file() missing 1 required positional argument: ''
                         @ quoted ''destination'')), fs)
      else
        (Inl (TypeError (''MCPFilesystemServer.write_file() missing 1 required positional argument: ''
                         @ quoted ''content'')), fs))"

text \<open>\<open>execute_tool\<close>.\<close>

definition execute_tool :: "server \<Rightarrow> string \<Rightarrow> string \<Rightarrow> node \<Rightarrow> payload \<times> node" where
  "execute_tool srv tool_name tool_args fs =
     (if tool_name \<notin> set valid_tools
      then (error_payload (''Tool '' @ quoted tool_name @ '' not found''), fs)
      else (case (if tool_name = ''write_file'' then parse_write_file_arguments tool_args
                  else Inr (parse_tool_arguments tool_args)) of
              Inl r \<Rightarrow> (r, fs)
            | Inr args \<Rightarrow>
                if tool_name = ''write_file'' \<and> length args = 2
                then write_file srv (args ! 0) (args ! 1) fs
                else if tool_name = ''move_file'' \<and> length args = 2
                then move_file srv (args ! 0) (args ! 1) fs
                else if length args \<ge> 1
                then catch_io (call_tool1 srv tool_name (args ! 0) fs)
                else catch_io (call_tool1 srv tool_name ''.'' fs)))"

section \<open>DesktopAgent: the bulk macros\<close>

text \<open>
  The agent reaches the file system through its \<open>filesystem\<close> object. The macros use
  three of its methods; they are written over any object with these methods and any
  state \<open>'st\<close> the methods work on. \<open>server_filesystem\<close> is the object the agent
  is built with.
\<close>

record 'st filesystem =
  fs_list_directory :: "string \<Rightarrow> 'st \<Rightarrow> payload"
  fs_delete_file :: "string \<Rightarrow> 'st \<Rightarrow> payload \<times> 'st"
  fs_move_file :: "string \<Rightarrow> string \<Rightarrow> 'st \<Rightarrow> payload \<times> 'st"


text \<open>\<open>r.get("items", [])\<close>, for a result that holds a list of entries under the key.\<close>

definition get_items :: "payload \<Rightarrow> item list" where
  "get_items r = (case map_of r ''items'' of Some (Items xs) \<Rightarrow> xs | _ \<Rightarrow> [])"

definition image_extensions :: "string list" where
  "image_extensions = [''.jpg'', ''.jpeg'', ''.png'', ''.gif'', ''.bmp'', ''.tiff'', ''.webp'']"

definition is_image :: "string \<Rightarrow> bool" where
  "is_image name = list_ex (\<lambda>ext. suffix ext (lower name)) image_extensions"

definition image_files_of :: "payload \<Rightarrow> string list" where
  "image_files_of list_result =
     map item_name (filter (\<lambda>i. item_type i = ''file'' \<and> is_image (item_name i)) (get_items list_result))"

text \<open>
  The loop of \<open>move_images_to_folder\<close>: \<open>Some reply\<close> is the \<open>return\<close> inside the
  loop, \<open>None\<close> its normal end.
\<close>

fun move_images_loop :: "'st filesystem \<Rightarrow> string \<Rightarrow> string list \<Rightarrow> 'st \<Rightarrow> string option \<times> 'st" where
  "move_images_loop ops folder_name [] st = (None, st)"
| "move_images_loop ops folder_name (image_file # rest) st =
     (case fs_move_file ops (''./'' @ image_file) (''./'' @ folder_name @ ''/'' @ image_file) st of
        (move_result, st') \<Rightarrow>
          if has_error move_result
          then (Some (cross_mark @ '' Error moving '' @ image_file @ '': '' @ get_error move_result), st')
          else move_images_loop ops folder_name rest st')"

definition move_images_to_folder :: "'st filesystem \<Rightarrow> string \<Rightarrow> 'st \<Rightarrow> string \<times> 'st" where
  "move_images_to_folder ops folder_name st =
     (let list_result = fs_list_directory ops ''.'' st
      in if has_error list_result
         then (cross_mark @ '' Error listing files: '' @ get_error list_result, st)
         else (let image_files = image_files_of list_result
               in if image_files = [] then (cross_mark @ '' No image files found to move.'', st)
                  else (case move_images_loop ops folder_name image_files st of
                          (Some reply, st') \<Rightarrow> (reply, st')
                        | (None, st') \<Rightarrow>
                            (check_mark @ '' Successfully moved '' @ str_nat (length image_files)
                             @ '' image files to '' @ folder_name @ ''.'', st'))))"

fun delete_images_loop :: "'st filesystem \<Rightarrow> string list \<Rightarrow> 'st \<Rightarrow> string option \<times> 'st" where
  "delete_images_loop ops [] st = (None, st)"
| "delete_images_loop ops (image_file # rest) st =
     (case fs_delete_file ops image_file st of
        (delete_result, st') \<Rightarrow>
          if has_error delete_result
          then (Some (cross_mark @ '' Error deleting '' @ image_file @ '': '' @ get_error delete_result), st')
          else delete_images_loop ops rest st')"

definition delete_images :: "'st filesystem \<Rightarrow> 'st \<Rightarrow> string \<times> 'st" where
  "delete_images ops st =
     (let list_result = fs_list_directory ops ''.'' st
      in if has_error list_result
         then (cross_mark @ '' Error listing files: '' @ get_error list_result, st)
         else (let image_files = image_files_of list_result
               in if image_files = [] then (cross_mark @ '' No image files found to delete.'', st)
                  else (case delete_images_loop ops image_files st of
                          (Some reply, st') \<Rightarrow> (reply, st')
                        | (None, st') \<Rightarrow>
                            (check_mark @ '' Successfully deleted '' @ str_nat (length image_files)
                             @ '' image files.'', st'))))"

text \<open>The loop of \<open>delete_all_files_in_current_folder\<close>, with its two variables.\<close>

fun delete_all_loop :: "'st filesystem \<Rightarrow> string list \<Rightarrow> nat \<Rightarrow> string list \<Rightarrow> 'st
                         \<Rightarrow> nat \<times> string list \<times> 'st" where
  "delete_all_loop ops [] deleted_count errors st = (deleted_count, errors, st)"
| "delete_all_loop ops (file_name # rest) deleted_count errors st =
     (case fs_delete_file ops file_name st of
        (delete_result, st') \<Rightarrow>
          if has_error delete_result
          then delete_all_loop ops rest deleted_count
                 (errors @ [cross_mark @ '' Error deleting '' @ file_name @ '': '' @ get_error delete_result]) st'
          else delete_all_loop ops rest (deleted_count + 1) errors st')"

definition delete_all_files_in_current_folder :: "'st filesystem \<Rightarrow> 'st \<Rightarrow> string \<times> 'st" where
  "delete_all_files_in_current_folder ops st =
     (let list_result = fs_list_directory ops ''.'' st
      in if has_error list_result
         then (cross_mark @ '' Error listing files to delete: '' @ get_error list_result, st)
         else (let files_to_delete =
                     map item_name (filter (\<lambda>i. item_type i = ''file'') (get_items list_result))
               in if files_to_delete = []
                  then (check_mark @ '' No files found in the current folder to delete.'', st)
                  else (case delete_all_loop ops files_to_delete 0 [] st of
                          (deleted_count, errors, st') \<Rightarrow>
                            if errors \<noteq> []
                            then (check_mark @ '' Deleted '' @ str_nat deleted_count
                                  @ '' files. Some errors occurred: '' @ join ''; '' errors, st')
                            else (check_mark @ '' Successfully deleted '' @ str_nat deleted_count
                                  @ '' files in the current folder.'', st'))))"

section \<open>Notions of the specification\<close>

text \<open>
  An argument resolves outside the root: its resolution succeeds and the root is
  neither the resolved path nor one of its parents.
\<close>

definition resolution :: "server \<Rightarrow> string \<Rightarrow> exn + path" where
  "resolution srv p =
     (if isabs p then resolve (cwd srv) p
      else resolve_from [] (allowed_directory srv @ Path_parts p))"

definition resolves_outside :: "server \<Rightarrow> string \<Rightarrow> bool" where
  "resolves_outside srv p =
     (case resolution srv p of
        Inl e \<Rightarrow> False
      | Inr q \<Rightarrow> \<not> prefix (allowed_directory srv) q)"

text \<open>
  The two shapes of a result: an error payload is the dictionary with the one key
  \<open>error\<close> and a string under it; a success payload has the keys of its operation,
  none of which is \<open>error\<close>.
\<close>

definition is_error_shape :: "payload \<Rightarrow> bool" where
  "is_error_shape r = (case r of [(k, S m)] \<Rightarrow> k = ''error'' | _ \<Rightarrow> False)"

definition success_keys :: "string \<Rightarrow> string list" where
  "success_keys tool_name =
     (if tool_name = ''list_directory'' then [''path'', ''items'', ''count'']
      else if tool_name = ''read_file'' then [''path'', ''content'', ''size'', ''type'']
      else if tool_name = ''write_file'' then [''path'', ''size'', ''message'']
      else if tool_name = ''create_directory'' then [''path'', ''message'']
      else if tool_name = ''delete_file'' then [''path'', ''message'']
      else if tool_name = ''move_file'' then [''source'', ''destination'', ''message'']
      else [''path'', ''name'', ''type'', ''size'', ''created'', ''modified'', ''permissions''])"

definition is_success_shape :: "string \<Rightarrow> payload \<Rightarrow> bool" where
  "is_success_shape tool_name r = (map fst r = success_keys tool_name \<and> \<not> has_error r)"

definition exactly_one :: "bool \<Rightarrow> bool \<Rightarrow> bool" where
  "exactly_one a b = (a \<noteq> b)"

definition shaped :: "string \<Rightarrow> payload \<Rightarrow> bool" where
  "shaped tool_name r = exactly_one (is_error_shape r) (is_success_shape tool_name r)"

text \<open>The name and the arguments of the tool call found in a response, if there is one.\<close>

definition has_tool_call :: "string \<Rightarrow> bool" where
  "has_tool_call response = (case extract_tool_call response of None \<Rightarrow> False | Some m \<Rightarrow> True)"

definition extracted_name :: "string \<Rightarrow> string" where
  "extracted_name response = (case extract_tool_call response of None \<Rightarrow> [] | Some m \<Rightarrow> group m 1)"

definition extracted_args :: "string \<Rightarrow> string" where
  "extracted_args response =
     (case extract_tool_call response of None \<Rightarrow> [] | Some m \<Rightarrow> strip (group m 2))"

text \<open>
  What a batch does when one operation is applied to each target in turn, whatever
  the results are: the result of each call, with its target, and the state after
  all the calls.
\<close>

fun outcomes :: "(string \<Rightarrow> 'st \<Rightarrow> payload \<times> 'st) \<Rightarrow> string list \<Rightarrow> 'st \<Rightarrow> (string \<times> payload) list" where
  "outcomes f [] st = []"
| "outcomes f (x # xs) st = (x, fst (f x st)) # outcomes f xs (snd (f x st))"

fun state_after :: "(string \<Rightarrow> 'st \<Rightarrow> payload \<times> 'st) \<Rightarrow> string list \<Rightarrow> 'st \<Rightarrow> 'st" where
  "state_after f [] st = st"
| "state_after f (x # xs) st = state_after f xs (snd (f x st))"

definition failed :: "string \<times> payload \<Rightarrow> bool" where
  "failed oc = has_error (snd oc)"

text \<open>The line the macros write for a failed target.\<close>

definition error_line :: "string \<Rightarrow> string \<times> payload \<Rightarrow> string" where
  "error_line verb oc = cross_mark @ '' Error '' @ verb @ '' '' @ fst oc @ '': '' @ get_error (snd oc)"

text \<open>The call \<open>move_images_to_folder\<close> makes for one image.\<close>

definition move_into :: "'st filesystem \<Rightarrow> string \<Rightarrow> string \<Rightarrow> 'st \<Rightarrow> payload \<times> 'st" where
  "move_into ops folder_name image_file =
     fs_move_file ops (''./'' @ image_file) (''./'' @ folder_name @ ''/'' @ image_file)"

text \<open>The targets of \<open>delete_all_files_in_current_folder\<close>: the entries listed as files.\<close>

definition files_of :: "payload \<Rightarrow> string list" where
  "files_of list_result =
     map item_name (filter (\<lambda>i. item_type i = ''file'') (get_items list_result))"

text \<open>
  The arguments of \<open>write_file\<close> as the specification describes them. A text is
  wrapped when it starts and ends with the same quote character. The comma that
  separates the path from the content is the first comma whose preceding text,
  without the white space around it, is wrapped; when no comma is like that, it is
  the first comma. Path and content are the texts before and after that comma, each
  without the white space around it, without one level of wrapping quotes, and again
  without the white space around it. Without a comma there is no such pair.
\<close>

definition wrapped :: "string \<Rightarrow> bool" where
  "wrapped t = (2 \<le> length t \<and> (hd t = CHR 0x27 \<or> hd t = CHR 0x22) \<and> last t = hd t)"

definition unwrap :: "string \<Rightarrow> string" where
  "unwrap t = (if wrapped t then butlast (tl t) else t)"

text \<open>The texts before each comma, the shortest first.\<close>

fun comma_prefixes :: "string \<Rightarrow> string list" where
  "comma_prefixes [] = []"
| "comma_prefixes (c # cs) =
     (if c = CHR '','' then [[]] else []) @ map ((#) c) (comma_prefixes cs)"

definition separating_prefix :: "string \<Rightarrow> string option" where
  "separating_prefix s =
     (case find (\<lambda>a. wrapped (strip a)) (comma_prefixes s) of
        Some a \<Rightarrow> Some a
      | None \<Rightarrow> (case comma_prefixes s of [] \<Rightarrow> None | a # as \<Rightarrow> Some a))"

definition spec_write_file_arguments :: "string \<Rightarrow> payload + string list" where
  "spec_write_file_arguments s =
     (case separating_prefix s of
        None \<Rightarrow> Inl (error_payload (''Invalid arguments for write_file: '' @ s
                                     @ ''. Expected '' @ quoted ''path'' @ '', '' @ quoted ''content''))
      | Some a \<Rightarrow> Inr [strip (unwrap (strip a)), strip (unwrap (strip (drop (Suc (length a)) s)))])"

text \<open>What the pattern of \<open>write_file\<close> captured, when it matches.\<close>

definition write_file_matches :: "string \<Rightarrow> bool" where
  "write_file_matches tool_args =
     (case re_match write_file_pattern tool_args of None \<Rightarrow> False | Some m \<Rightarrow> True)"

definition captured_path :: "string \<Rightarrow> string" where
  "captured_path tool_args =
     (case re_match write_file_pattern tool_args of None \<Rightarrow> [] | Some m \<Rightarrow> group m 2)"

definition captured_content :: "string \<Rightarrow> string" where
  "captured_content tool_args =
     (case re_match write_file_pattern tool_args of None \<Rightarrow> [] | Some m \<Rightarrow> group m 4)"

text \<open>
  Parts of that pattern, named for the proofs: its second half, the separator with
  the second half, and the first half from the first and from the second group on.
  A text closes an argument opened by \<open>q\<close> when it is \<open>q\<close>, white space and a comma;
  what follows the comma is the rest.
\<close>

definition tail_pat :: "atom list" where
  "tail_pat = [Rep Star SpaceCls, Group 3 Opt QuoteCls, Group 4 Star AnyChar, Backref 3,
               Rep Star SpaceCls, EndOfString]"

definition sep_pat :: "atom list" where
  "sep_pat = Rep Star SpaceCls # Lit '','' # tail_pat"

definition lazy_pat :: "atom list" where
  "lazy_pat = Group 2 LazyStar AnyChar # Backref 1 # sep_pat"

definition path_pat :: "atom list" where
  "path_pat = Group 1 Opt QuoteCls # Group 2 LazyStar AnyChar # Backref 1 # sep_pat"

definition closing :: "string \<Rightarrow> string \<Rightarrow> bool" where
  "closing q r = (\<exists>w b. r = q @ w @ CHR '','' # b \<and> list_all isspace w)"

definition after_closing :: "string \<Rightarrow> string \<Rightarrow> string" where
  "after_closing q r = tl (lstrip (drop (length q) r))"


text \<open>No file stands on the way to \<open>d\<close>, which includes \<open>d\<close> itself.\<close>

definition clear_way :: "node \<Rightarrow> path \<Rightarrow> bool" where
  "clear_way fs d = (\<forall>q. prefix q d \<longrightarrow> \<not> is_file fs q)"

text \<open>
  Limits of the platform that the file system above does not have: a name of at most
  255 bytes and a path of fewer than 4096 bytes (\<open>NAME_MAX\<close> and \<open>PATH_MAX\<close> of
  Linux), and a depth that keeps \<open>Path.mkdir(parents=True)\<close>, which calls itself once
  for each missing directory, far below the recursion limit of the interpreter. What
  promises that a call succeeds is stated for paths within them.
\<close>

definition within_limits :: "path \<Rightarrow> bool" where
  "within_limits p =
     (length p \<le> 100
      \<and> list_all (\<lambda>c. length (utf8_encode c) \<le> 255) p
      \<and> length (utf8_encode (str_path p)) < 4096)"

section \<open>Example inputs\<close>

text \<open>A server whose root is \<open>/home/box\<close>, in a process started in \<open>/tmp\<close>.\<close>

definition srv0 :: server where
  "srv0 = \<lparr>allowed_directory = [''home'', ''box''], cwd = [''tmp'']\<rparr>"

text \<open>A file system where the root holds three files and one directory.\<close>

definition box0 :: "(string \<times> node) list" where
  "box0 = [(''a.txt'', File (Text ''alpha'')),
           (''sub'', Dir [(''d.txt'', File (Text ''delta''))]),
           (''b.jpg'', File (Binary [CHR 0xFF, CHR 0xD8])),
           (''c.txt'', File (Text ''gamma''))]"

definition fs0 :: node where
  "fs0 = Dir [(''etc'', Dir [(''passwd'', File (Text ''root''))]),
              (''home'', Dir [(''box'', Dir box0)])]"

text \<open>
  A file system object that answers one listing and refuses \<open>b.png\<close>; its state
  is the list of the paths it was asked to delete or move.
\<close>

definition log_ops :: "string list filesystem" where
  "log_ops =
     \<lparr>fs_list_directory = (\<lambda>p st.
          [(''path'', S ''/box''),
           (''items'', Items [\<lparr>item_name = ''a.jpg'', item_type = ''file'', item_size = Some 1\<rparr>,
                             \<lparr>item_name = ''b.png'', item_type = ''file'', item_size = Some 2\<rparr>,
                             \<lparr>item_name = ''old.gif'', item_type = ''directory'', item_size = None\<rparr>,
                             \<lparr>item_name = ''c.GIF'', item_type = ''file'', item_size = Some 3\<rparr>,
                             \<lparr>item_name = ''notes.txt'', item_type = ''file'', item_size = Some 4\<rparr>]),
           (''count'', N 5)]),
      fs_delete_file = (\<lambda>p st.
          (if p = ''b.png'' then error_payload ''Permission denied''
           else [(''path'', S p), (''message'', S ''File deleted successfully'')], st @ [p])),
      fs_move_file = (\<lambda>src dst st.
          (if src = ''./b.png'' then error_payload ''Permission denied''
           else [(''source'', S src), (''destination'', S dst), (''message'', S ''File moved successfully'')],
           st @ [src]))\<rparr>"

text \<open>The text \<open>"hi\r\n"\<close>.\<close>

definition crlf_text :: string where
  "crlf_text = ''hi'' @ [CHR 0x0D, CHR 0x0A]"

section \<open>Properties of paths\<close>

lemma split_on_nonempty: "split_on d s \<noteq> []"
  by (induction s) (auto split: list.splits)

lemma split_on_no_sep: "w \<in> set (split_on d s) \<Longrightarrow> d \<notin> set w"
  by (induction s arbitrary: w) (auto split: list.splits if_splits)

lemma split_on_mem: "w \<in> set (split_on d s) \<Longrightarrow> x \<in> set w \<Longrightarrow> x \<in> set s"
proof (induction s arbitrary: w)
  case Nil
  then show ?case by simp
next
  case (Cons c cs)
  then show ?case
    by (cases "split_on d cs") (fastforce split: if_splits)+
qed

lemma split_on_subset: "w \<in> set (split_on d s) \<Longrightarrow> set w \<subseteq> set s"
  using split_on_mem by blast

lemma Path_parts_wf:
  "c \<in> set (Path_parts s) \<Longrightarrow> CHR 0x00 \<notin> set c \<Longrightarrow> c = ''..'' \<or> wf_comp c"
  using split_on_no_sep [of c "CHR ''/''" s]
  by (auto simp: Path_parts_def wf_comp_def)

lemma Path_parts_nul: "CHR 0x00 \<in> set (concat (Path_parts s)) \<Longrightarrow> CHR 0x00 \<in> set s"
  using split_on_mem [of _ "CHR ''/''" s "CHR 0x00"]
  by (auto simp: Path_parts_def)

lemma walk_wf:
  "wf_path acc \<Longrightarrow> \<forall>c \<in> set cs. c = ''..'' \<or> wf_comp c \<Longrightarrow> wf_path (walk acc cs)"
proof (induction cs arbitrary: acc)
  case Nil
  then show ?case by simp
next
  case (Cons c cs)
  have "wf_path (butlast acc)"
    using Cons.prems(1) by (auto simp: wf_path_def list_all_iff dest: in_set_butlastD)
  with Cons show ?case by (auto simp: wf_path_def)
qed

lemma walk_plain: "''..'' \<notin> set cs \<Longrightarrow> walk acc cs = acc @ cs"
  by (induction cs arbitrary: acc) auto

lemma split_on_comp:
  "d \<notin> set c \<Longrightarrow> split_on d (c @ d # rest) = c # split_on d rest"
  by (induction c) auto

lemma split_on_plain: "d \<notin> set c \<Longrightarrow> split_on d c = [c]"
  by (induction c) auto

lemma split_on_str:
  "list_all (\<lambda>c. d \<notin> set c) p \<Longrightarrow> p \<noteq> [] \<Longrightarrow> split_on d (concat (map (\<lambda>c. d # c) p)) = [] # p"
proof (induction p)
  case Nil
  then show ?case by simp
next
  case (Cons c p)
  show ?case
  proof (cases "p = []")
    case True
    with Cons.prems show ?thesis by (simp add: split_on_plain)
  next
    case False
    with Cons have ih: "split_on d (concat (map (\<lambda>c. d # c) p)) = [] # p" by simp
    from False obtain c' p' where p: "p = c' # p'" by (cases p) auto
    have "split_on d (c @ d # c' @ concat (map (\<lambda>c. d # c) p')) = c # split_on d (c' @ concat (map (\<lambda>c. d # c) p'))"
      using Cons.prems by (simp add: split_on_comp)
    moreover have "split_on d (d # c' @ concat (map (\<lambda>c. d # c) p')) = [] # split_on d (c' @ concat (map (\<lambda>c. d # c) p'))"
      by simp
    ultimately show ?thesis using ih p by simp
  qed
qed

lemma Path_parts_str_path: "wf_path p \<Longrightarrow> Path_parts (str_path p) = p"
proof (cases "p = []")
  case True
  then show ?thesis by (simp add: Path_parts_def str_path_def)
next
  case False
  assume wf: "wf_path p"
  then have "list_all (\<lambda>c. CHR ''/'' \<notin> set c) p"
    by (auto simp: wf_path_def wf_comp_def list_all_iff)
  with False have "split_on CHR ''/'' (str_path p) = [] # p"
    by (simp add: str_path_def split_on_str)
  moreover have "filter (\<lambda>c. c \<noteq> [] \<and> c \<noteq> ''.'') p = p"
    using wf by (auto simp: wf_path_def wf_comp_def list_all_iff intro: filter_True)
  ultimately show ?thesis by (simp add: Path_parts_def)
qed

lemma str_path_isabs: "isabs (str_path p)"
  by (cases p) (auto simp: str_path_def isabs_def)

lemma str_path_no_nul: "wf_path p \<Longrightarrow> CHR 0x00 \<notin> set (str_path p)"
  by (auto simp: str_path_def wf_path_def wf_comp_def list_all_iff)

lemma resolve_str_path: "wf_path p \<Longrightarrow> resolve w (str_path p) = Inr p"
proof -
  assume wf: "wf_path p"
  then have "''..'' \<notin> set p" by (auto simp: wf_path_def wf_comp_def list_all_iff)
  then have "walk [] p = p" by (simp add: walk_plain)
  moreover have "CHR 0x00 \<notin> set (concat p)"
    using wf by (auto simp: wf_path_def wf_comp_def list_all_iff)
  ultimately show ?thesis using wf
    by (simp add: resolve_def resolve_from_def Path_parts_str_path str_path_isabs)
qed

lemma resolve_from_wf:
  assumes "wf_path start" and "\<forall>c \<in> set comps. c = ''..'' \<or> wf_comp c \<or> CHR 0x00 \<in> set c"
    and "resolve_from start comps = Inr q"
  shows "wf_path q"
proof -
  from assms(3) have nul: "CHR 0x00 \<notin> set (concat comps)" and q: "q = walk start comps"
    by (auto simp: resolve_from_def split: if_splits)
  from nul assms(2) have "\<forall>c \<in> set comps. c = ''..'' \<or> wf_comp c" by auto
  with assms(1) q show ?thesis by (simp add: walk_wf)
qed

lemma resolve_from_Inl:
  "resolve_from start comps = Inl e \<Longrightarrow> e = ValueError ''embedded null byte'' \<and> CHR 0x00 \<in> set (concat comps)"
  by (auto simp: resolve_from_def split: if_splits)

lemma wf_path_no_nul: "wf_path p \<Longrightarrow> CHR 0x00 \<notin> set (concat p)"
  by (auto simp: wf_path_def wf_comp_def list_all_iff)

lemma is_path_allowed_str_path:
  "wf_path q \<Longrightarrow> is_path_allowed srv (str_path q) = prefix (allowed_directory srv) q"
  by (simp add: is_path_allowed_def resolve_str_path is_relative_to_def)

lemma get_safe_path_cases:
  assumes wf: "wf_path (allowed_directory srv)"
  shows "(\<exists>q. get_safe_path srv p = Inr q \<and> wf_path q \<and> prefix (allowed_directory srv) q)
       \<or> get_safe_path srv p = Inl (PermissionError (''Access denied to path: '' @ p))
       \<or> (get_safe_path srv p = Inl (ValueError ''embedded null byte'') \<and> CHR 0x00 \<in> set p)"
proof -
  let ?r = "if isabs p then resolve (cwd srv) p
            else resolve_from [] (allowed_directory srv @ Path_parts p)"
  let ?comps = "if isabs p then Path_parts p else allowed_directory srv @ Path_parts p"
  have r: "?r = resolve_from [] ?comps"
    by (simp add: resolve_def)
  have comps: "\<forall>c \<in> set ?comps. c = ''..'' \<or> wf_comp c \<or> CHR 0x00 \<in> set c"
    using wf Path_parts_wf [of _ p] by (auto simp: wf_path_def list_all_iff)
  show ?thesis
  proof (cases ?r)
    case (Inl e)
    with r have e: "e = ValueError ''embedded null byte''" and "CHR 0x00 \<in> set (concat ?comps)"
      using resolve_from_Inl [of "[]" ?comps e] by auto
    then have "CHR 0x00 \<in> set p"
      using wf_path_no_nul [OF wf] Path_parts_nul [of p] by (auto split: if_splits)
    with Inl e show ?thesis by (simp add: get_safe_path_def)
  next
    case (Inr q)
    with r comps have q: "wf_path q"
      using resolve_from_wf [of "[]" ?comps q] by (simp add: wf_path_def)
    with Inr show ?thesis
      by (simp add: get_safe_path_def is_path_allowed_str_path)
  qed
qed


text \<open>
  Where resolution works on the text of the path (no symbolic links), a path that
  \<open>get_safe_path\<close> returns is the root or has the root as a proper ancestor, and
  what it raises is the access-denied error or the error of the resolution.
\<close>

lemma get_safe_path_within_root:
  assumes "wf_path (allowed_directory srv)"
  shows "case get_safe_path srv p of
           Inr safe_path \<Rightarrow>
             safe_path = allowed_directory srv \<or> strict_prefix (allowed_directory srv) safe_path
         | Inl e \<Rightarrow>
             e = PermissionError (''Access denied to path: '' @ p)
             \<or> (e = ValueError ''embedded null byte'' \<and> CHR 0x00 \<in> set p)"
  using get_safe_path_cases [OF assms, of p] by (auto simp: strict_prefix_def)

lemma get_safe_path_within_root_example:
  "wf_path (allowed_directory srv0)
   \<and> get_safe_path srv0 ''a/../b.txt'' = Inr [''home'', ''box'', ''b.txt'']
   \<and> strict_prefix (allowed_directory srv0) [''home'', ''box'', ''b.txt'']"
proof -
  have h: "wf_path (allowed_directory srv0)"
    by (simp add: srv0_def wf_path_def wf_comp_def)
  have e: "get_safe_path srv0 ''a/../b.txt'' = Inr [''home'', ''box'', ''b.txt'']"
    by code_simp
  have r: "[''home'', ''box'', ''b.txt''] \<noteq> allowed_directory srv0"
    by (simp add: srv0_def)
  from get_safe_path_within_root [OF h, of "''a/../b.txt''"] e r
  have "strict_prefix (allowed_directory srv0) [''home'', ''box'', ''b.txt'']" by simp
  with h e show ?thesis by simp
qed

text \<open>
  C1. The claim has \<open>_get_safe_path\<close> return a path within the root or fail with the
  access-denied error. \<open>_get_safe_path\<close> resolves the path before the check and
  outside any handler, so an exception of \<open>Path.resolve\<close> leaves it as it is: for
  the path string \<open>a\<close>, U+0000, \<open>b\<close> the caller receives \<open>ValueError\<close> and not
  \<open>PermissionError\<close>, although \<open>_is_path_allowed\<close>, given the same string, catches
  that exception and answers \<open>False\<close>.
\<close>

theorem get_safe_path_resolve_error_escapes:
  "get_safe_path srv0 [CHR ''a'', CHR 0x00, CHR ''b''] = Inl (ValueError ''embedded null byte'')
   \<and> ValueError ''embedded null byte''
       \<noteq> PermissionError (''Access denied to path: '' @ [CHR ''a'', CHR 0x00, CHR ''b''])
   \<and> is_path_allowed srv0 [CHR ''a'', CHR 0x00, CHR ''b''] = False"
  by code_simp

lemma split_on_covers: "x \<in> set s \<Longrightarrow> x \<noteq> d \<Longrightarrow> \<exists>w \<in> set (split_on d s). x \<in> set w"
proof (induction s)
  case Nil
  then show ?case by simp
next
  case (Cons c cs)
  then show ?case
    by (cases "split_on d cs") (auto split: if_splits)
qed

lemma Path_parts_keeps_nul:
  assumes "CHR 0x00 \<in> set s"
  shows "CHR 0x00 \<in> set (concat (Path_parts s))"
proof -
  from split_on_covers [OF assms, of "CHR ''/''"]
  obtain w where w: "w \<in> set (split_on CHR ''/'' s)" "CHR 0x00 \<in> set w" by auto
  then have "w \<noteq> []" "w \<noteq> ''.''" by auto
  with w show ?thesis by (auto simp: Path_parts_def)
qed

lemma nul_get_safe_path:
  assumes "CHR 0x00 \<in> set p"
  shows "get_safe_path srv p = Inl (ValueError ''embedded null byte'')"
proof -
  have "CHR 0x00 \<in> set (concat (Path_parts p))"
    using assms by (rule Path_parts_keeps_nul)
  then show ?thesis
    by (auto simp: get_safe_path_def resolve_def resolve_from_def)
qed

lemma resolution_eq:
  assumes "wf_path (allowed_directory srv)"
  shows "resolution srv p =
           (if CHR 0x00 \<in> set p then Inl (ValueError ''embedded null byte'')
            else Inr (walk [] (if isabs p then Path_parts p else allowed_directory srv @ Path_parts p)))"
  using Path_parts_keeps_nul [of p] Path_parts_nul [of p] wf_path_no_nul [OF assms]
  by (auto simp: resolution_def resolve_def resolve_from_def)

lemma get_safe_path_eq:
  assumes wf: "wf_path (allowed_directory srv)"
  shows "get_safe_path srv p =
           (if CHR 0x00 \<in> set p then Inl (ValueError ''embedded null byte'')
            else if resolves_outside srv p then Inl (PermissionError (''Access denied to path: '' @ p))
            else Inr (walk [] (if isabs p then Path_parts p else allowed_directory srv @ Path_parts p)))"
proof (cases "CHR 0x00 \<in> set p")
  case True
  then show ?thesis by (simp add: nul_get_safe_path)
next
  case False
  let ?q = "walk [] (if isabs p then Path_parts p else allowed_directory srv @ Path_parts p)"
  from False have r: "resolution srv p = Inr ?q"
    by (simp add: resolution_eq [OF wf])
  have "\<forall>c \<in> set (Path_parts p). c = ''..'' \<or> wf_comp c"
    using Path_parts_wf [of _ p] Path_parts_nul [of p] False by auto
  moreover have "wf_path []" by (simp add: wf_path_def)
  ultimately have "wf_path ?q"
    using wf walk_wf [of "[]" "Path_parts p"]
      walk_wf [of "[]" "allowed_directory srv @ Path_parts p"]
    by (auto simp: wf_path_def list_all_iff)
  with r False show ?thesis
    by (simp add: get_safe_path_def resolves_outside_def resolution_def
        is_path_allowed_str_path)
qed


section \<open>Properties of the operations\<close>

text \<open>
  Where resolution works on the text of the path (no symbolic links): if either
  endpoint of \<open>move_file\<close> resolves outside the root, the call returns an error
  result and leaves the file system as it was.
\<close>

lemma move_file_outside_no_mutation:
  assumes "wf_path (allowed_directory srv)"
    and "resolves_outside srv source \<or> resolves_outside srv destination"
  shows "move_file srv source destination fs =
           (error_payload
              (if CHR 0x00 \<in> set source then ''embedded null byte''
               else ''Access denied to path: '' @ (if resolves_outside srv source then source else destination)),
            fs)"
proof -
  have d: "resolves_outside srv destination \<Longrightarrow> CHR 0x00 \<notin> set destination"
    using resolution_eq [OF assms(1), of destination]
    by (auto simp: resolves_outside_def)
  show ?thesis
    using assms(2) d
    by (auto simp: move_file_def get_safe_path_eq [OF assms(1)] catch_io_def error_payload_def)
qed

lemma move_file_outside_no_mutation_example:
  "wf_path (allowed_directory srv0)
   \<and> resolves_outside srv0 ''/etc/a.txt''
   \<and> move_file srv0 ''a.txt'' ''/etc/a.txt'' fs0
       = (error_payload ''Access denied to path: /etc/a.txt'', fs0)"
proof -
  have h: "wf_path (allowed_directory srv0)"
    by (simp add: srv0_def wf_path_def wf_comp_def)
  have o: "resolves_outside srv0 ''/etc/a.txt''"
    by code_simp
  have i: "\<not> resolves_outside srv0 ''a.txt''"
    by code_simp
  from move_file_outside_no_mutation [OF h, of "''a.txt''" "''/etc/a.txt''" fs0] o i
  have "move_file srv0 ''a.txt'' ''/etc/a.txt'' fs0
          = (error_payload ''Access denied to path: /etc/a.txt'', fs0)"
    by simp
  with h o show ?thesis by simp
qed

text \<open>
  C2. The claim has \<open>move_file\<close> return the access-denied error and change nothing
  when an endpoint resolves outside the root. The destination \<open>/etc/x\<close> is outside the
  root: its guard raises the access-denied error. With the source \<open>a\<close>, U+0000, the
  exception of \<open>Path.resolve\<close> leaves the guard of the source first, and
  \<open>move_file\<close> returns its text, not the access-denied error; the file system is as
  it was.
\<close>

theorem move_file_resolve_error_escapes:
  "get_safe_path srv0 ''/etc/x'' = Inl (PermissionError ''Access denied to path: /etc/x'')
   \<and> move_file srv0 [CHR ''a'', CHR 0x00] ''/etc/x'' fs0
       = (error_payload ''embedded null byte'', fs0)
   \<and> error_payload ''embedded null byte'' \<noteq> error_payload ''Access denied to path: /etc/x''"
  by code_simp

lemma error_payload_shape [simp]:
  "is_error_shape (error_payload m)" "\<not> is_success_shape t (error_payload m)"
  by (simp_all add: is_error_shape_def is_success_shape_def error_payload_def has_error_def)

lemma catch_cases:
  "catch x = r \<Longrightarrow> (\<exists>e. x = Inl e \<and> r = error_payload (str_exn e)) \<or> x = Inr r"
  by (cases x) (auto simp: catch_def)

lemma catch_io_cases:
  "catch_io x = (r, fs') \<Longrightarrow> (\<exists>e. x = (Inl e, fs') \<and> r = error_payload (str_exn e)) \<or> x = (Inr r, fs')"
  by (cases x; cases "fst x") (auto simp: catch_io_def)

lemma shaped_error [simp]: "shaped t (error_payload m)"
  by (simp add: shaped_def exactly_one_def)

lemma shaped_catch: "(\<And>r. x = Inr r \<Longrightarrow> shaped t r) \<Longrightarrow> shaped t (catch x)"
  by (cases x) (auto simp: catch_def)

lemma shaped_catch_io: "(\<And>r fs. x = (Inr r, fs) \<Longrightarrow> shaped t r) \<Longrightarrow> shaped t (fst (catch_io x))"
  by (cases x; cases "fst x") (auto simp: catch_io_def)

lemma catch_simps [simp]:
  "catch (Inl e) = error_payload (str_exn e)" "catch (Inr r) = r"
  "catch_io (Inl e, fs) = (error_payload (str_exn e), fs)" "catch_io (Inr r, fs) = (r, fs)"
  by (simp_all add: catch_def catch_io_def)

lemma shaped_success:
  "shaped ''list_directory'' [(''path'', a), (''items'', b), (''count'', c)]"
  "shaped ''read_file'' [(''path'', a), (''content'', b), (''size'', c), (''type'', d)]"
  "shaped ''write_file'' [(''path'', a), (''size'', b), (''message'', c)]"
  "shaped ''create_directory'' [(''path'', a), (''message'', b)]"
  "shaped ''delete_file'' [(''path'', a), (''message'', b)]"
  "shaped ''move_file'' [(''source'', a), (''destination'', b), (''message'', c)]"
  "shaped ''get_file_info'' [(''path'', a), (''name'', b), (''type'', c), (''size'', d),
       (''created'', e), (''modified'', f), (''permissions'', g)]"
  by (simp_all add: shaped_def exactly_one_def is_error_shape_def is_success_shape_def
      success_keys_def has_error_def split: pyval.splits)

lemma shaped_list_directory: "shaped ''list_directory'' (list_directory srv p fs)"
  by (cases "get_safe_path srv p") (simp_all add: list_directory_def shaped_success Let_def)

lemma shaped_read_file: "shaped ''read_file'' (read_file srv p fs)"
  by (cases "get_safe_path srv p")
     (simp_all add: read_file_def shaped_success Let_def split: sum.split exn.split)

lemma shaped_create_directory: "shaped ''create_directory'' (fst (create_directory srv p fs))"
proof (cases "get_safe_path srv p")
  case (Inl e)
  then show ?thesis by (simp add: create_directory_def)
next
  case (Inr sp)
  obtain r1 fs1 where m: "mkdir_parents fs sp = (r1, fs1)" by force
  show ?thesis
    using Inr m by (cases r1) (simp_all add: create_directory_def shaped_success)
qed

lemma shaped_get_file_info: "shaped ''get_file_info'' (get_file_info srv p fs)"
  apply (simp only: get_file_info_def)
  apply (cases "get_safe_path srv p")
   apply (simp add: shaped_success)
  apply (simp add: shaped_success split: sum.split)
  done

lemma shaped_write_file: "shaped ''write_file'' (fst (write_file srv p c fs))"
proof (cases "get_safe_path srv p")
  case (Inl e)
  then show ?thesis by (simp add: write_file_def)
next
  case (Inr sp)
  obtain r1 fs1 where m: "mkdir_parents fs (butlast sp) = (r1, fs1)" by force
  obtain r2 fs2 where w: "write_text fs1 sp c = (r2, fs2)" by force
  show ?thesis
    using Inr m w by (cases r1; cases r2) (simp_all add: write_file_def shaped_success)
qed

lemma shaped_delete_file: "shaped ''delete_file'' (fst (delete_file srv p fs))"
proof (cases "get_safe_path srv p")
  case (Inl e)
  then show ?thesis by (simp add: delete_file_def)
next
  case (Inr sp)
  obtain r1 fs1 where u: "unlink fs sp = (r1, fs1)" by force
  obtain r2 fs2 where t: "rmtree fs sp = (r2, fs2)" by force
  show ?thesis
    using Inr u t by (cases r1; cases r2) (simp_all add: delete_file_def shaped_success)
qed

lemma shaped_move_file: "shaped ''move_file'' (fst (move_file srv p q fs))"
proof (cases "get_safe_path srv p")
  case (Inl e)
  then show ?thesis by (simp add: move_file_def)
next
  case src: (Inr sp)
  show ?thesis
  proof (cases "get_safe_path srv q")
    case (Inl e)
    with src show ?thesis by (simp add: move_file_def)
  next
    case (Inr dp)
    obtain r1 fs1 where m: "mkdir_parents fs (butlast dp) = (r1, fs1)" by force
    obtain r2 fs2 where v: "shutil_move fs1 sp dp = (r2, fs2)" by force
    show ?thesis
      using src Inr m v by (cases r1; cases r2) (simp_all add: move_file_def shaped_success)
  qed
qed

text \<open>
  C3. Each of the seven operations, on every input, returns a dictionary of exactly
  one of the two shapes: the error payload, which is the key \<open>error\<close> with a string,
  or the success payload with the keys of that operation and no key \<open>error\<close>.
  The operations are total: whatever their body raises is turned into the error
  payload by the handler around it.
\<close>

theorem file_ops_result_shape:
  "shaped ''list_directory'' (list_directory srv p fs)
   \<and> shaped ''read_file'' (read_file srv p fs)
   \<and> shaped ''write_file'' (fst (write_file srv p content fs))
   \<and> shaped ''create_directory'' (fst (create_directory srv p fs))
   \<and> shaped ''delete_file'' (fst (delete_file srv p fs))
   \<and> shaped ''move_file'' (fst (move_file srv p q fs))
   \<and> shaped ''get_file_info'' (get_file_info srv p fs)"
  by (simp add: shaped_list_directory shaped_read_file shaped_write_file shaped_create_directory
      shaped_delete_file shaped_move_file shaped_get_file_info)

theorem file_ops_result_shape_witness:
  "is_error_shape (read_file srv0 ''../x'' fs0)
   \<and> \<not> is_success_shape ''read_file'' (read_file srv0 ''../x'' fs0)
   \<and> is_success_shape ''get_file_info'' (get_file_info srv0 ''a.txt'' fs0)
   \<and> \<not> is_error_shape (get_file_info srv0 ''a.txt'' fs0)"
proof -
  have a: "is_error_shape (read_file srv0 ''../x'' fs0)"
    by code_simp
  have b: "is_success_shape ''get_file_info'' (get_file_info srv0 ''a.txt'' fs0)"
    by code_simp
  from file_ops_result_shape [of srv0 "''../x''" fs0] a
  have c: "\<not> is_success_shape ''read_file'' (read_file srv0 ''../x'' fs0)"
    by (simp add: shaped_def exactly_one_def)
  from file_ops_result_shape [of srv0 "''a.txt''" fs0] b
  have d: "\<not> is_error_shape (get_file_info srv0 ''a.txt'' fs0)"
    by (simp add: shaped_def exactly_one_def)
  from a b c d show ?thesis by simp
qed

text \<open>
  C7 (the code reports characters, not bytes). \<open>write_file\<close> puts
  \<open>len(content)\<close> under \<open>size\<close>, and its log line and the agent's reply call that
  number bytes. For a content of the one character U+00E9 the size reported is 1,
  while the file written holds the two bytes of its UTF-8 encoding.
\<close>

theorem write_file_size_not_bytes:
  "fst (write_file srv0 ''e.txt'' [CHR 0xE9] fs0)
     = [(''path'', S ''/home/box/e.txt''), (''size'', N 1), (''message'', S ''File written successfully'')]
   \<and> os_stat (snd (write_file srv0 ''e.txt'' [CHR 0xE9] fs0)) [''home'', ''box'', ''e.txt'']
     = Inr (File (Text [CHR 0xE9]))
   \<and> st_size (Text [CHR 0xE9]) = 2
   \<and> utf8_encode [CHR 0xE9] = [CHR 0xC3, CHR 0xA9]"
  by code_simp

section \<open>Properties of the tool calls\<close>

text \<open>
  C9 (amended). For every tool call found in a response whose name is not one of the
  seven valid names: if the name holds \<open>list\<close> once it is put in lower case, the
  call becomes \<open>list_directory\<close>, with the argument \<open>.\<close> when no arguments were
  given; otherwise the reply is the unknown-tool message, which names the tool and
  lists the valid names. \<open>TOOL_CALL:list_drectory()\<close> becomes \<open>list_directory(.)\<close>.
\<close>

theorem unknown_tool_fallback:
  assumes "has_tool_call response" and "extracted_name response \<notin> set valid_tools"
  shows "tool_call_of_response response =
           (if contains ''list'' (lower (extracted_name response))
            then Execute ''list_directory''
                   (if extracted_args response = [] then ''.'' else extracted_args response)
            else Refused (cross_mark @ '' Unknown tool: '' @ extracted_name response
                   @ ''. Available tools: list_directory, read_file, write_file, ''
                   @ ''create_directory, delete_file, move_file, get_file_info''))
         \<and> tool_call_of_response ''TOOL_CALL:list_drectory()'' = Execute ''list_directory'' ''.''"
proof -
  from assms(1) obtain m where m: "extract_tool_call response = Some m"
    by (auto simp: has_tool_call_def split: option.splits)
  with assms(2) have "group m 1 \<notin> set valid_tools"
    by (simp add: extracted_name_def)
  with m have "tool_call_of_response response =
           (if contains ''list'' (lower (group m 1))
            then Execute ''list_directory'' (if strip (group m 2) = [] then ''.'' else strip (group m 2))
            else Refused (cross_mark @ '' Unknown tool: '' @ group m 1
                   @ ''. Available tools: list_directory, read_file, write_file, ''
                   @ ''create_directory, delete_file, move_file, get_file_info''))"
    by (simp add: tool_call_of_response_def check_tool_name_def) (simp add: valid_tools_def)
  moreover have "tool_call_of_response ''TOOL_CALL:list_drectory()'' = Execute ''list_directory'' ''.''"
    by code_simp
  ultimately show ?thesis
    using m by (simp add: extracted_name_def extracted_args_def)
qed

theorem unknown_tool_fallback_witness:
  "has_tool_call ''USE_TOOL: remove_all (x, y) now''
   \<and> extracted_name ''USE_TOOL: remove_all (x, y) now'' \<notin> set valid_tools
   \<and> tool_call_of_response ''USE_TOOL: remove_all (x, y) now''
       = Refused (cross_mark @ '' Unknown tool: remove_all. Available tools: list_directory, ''
                  @ ''read_file, write_file, create_directory, delete_file, move_file, get_file_info'')"
proof -
  have h: "has_tool_call ''USE_TOOL: remove_all (x, y) now''"
    by code_simp
  have n: "extracted_name ''USE_TOOL: remove_all (x, y) now'' = ''remove_all''"
    by code_simp
  then have v: "extracted_name ''USE_TOOL: remove_all (x, y) now'' \<notin> set valid_tools"
    by (simp add: valid_tools_def)
  have c: "\<not> contains ''list'' (lower ''remove_all'')"
    by code_simp
  from unknown_tool_fallback [OF h v] n c
  have "tool_call_of_response ''USE_TOOL: remove_all (x, y) now''
       = Refused (cross_mark @ '' Unknown tool: remove_all. Available tools: list_directory, ''
                  @ ''read_file, write_file, create_directory, delete_file, move_file, get_file_info'')"
    by simp
  with h v show ?thesis by simp
qed

text \<open>
  C9 as stated fails: the test for \<open>list\<close> is made on the name in lower case, so a
  name that is not valid and does not hold \<open>list\<close> as it is written, such as
  \<open>LIST_FILES\<close>, is not refused but becomes \<open>list_directory\<close>.
\<close>

theorem unknown_tool_counterexample:
  "extracted_name ''TOOL_CALL: LIST_FILES(docs)'' = ''LIST_FILES''
   \<and> ''LIST_FILES'' \<notin> set valid_tools
   \<and> \<not> contains ''list'' ''LIST_FILES''
   \<and> tool_call_of_response ''TOOL_CALL: LIST_FILES(docs)'' = Execute ''list_directory'' ''docs''"
  by code_simp

section \<open>Properties of the bulk macros\<close>

lemma state_after_append:
  "state_after f (xs @ ys) st = state_after f ys (state_after f xs st)"
  by (induction xs arbitrary: st) auto

lemma outcomes_append:
  "outcomes f (xs @ ys) st = outcomes f xs st @ outcomes f ys (state_after f xs st)"
  by (induction xs arbitrary: st) auto

lemma delete_images_loop_ok:
  "\<forall>oc \<in> set (outcomes (fs_delete_file ops) files st). \<not> failed oc
   \<Longrightarrow> delete_images_loop ops files st = (None, state_after (fs_delete_file ops) files st)"
  by (induction files arbitrary: st) (auto simp: failed_def split: prod.splits)

lemma delete_images_loop_stop:
  assumes "\<forall>oc \<in> set (outcomes (fs_delete_file ops) pre st). \<not> failed oc"
    and "fs_delete_file ops f (state_after (fs_delete_file ops) pre st) = (r, st')"
    and "has_error r"
  shows "delete_images_loop ops (pre @ f # post) st = (Some (error_line ''deleting'' (f, r)), st')"
  using assms
  by (induction pre arbitrary: st) (auto simp: failed_def error_line_def split: prod.splits)

lemma move_images_loop_ok:
  "\<forall>oc \<in> set (outcomes (move_into ops folder) files st). \<not> failed oc
   \<Longrightarrow> move_images_loop ops folder files st = (None, state_after (move_into ops folder) files st)"
  by (induction files arbitrary: st) (auto simp: failed_def move_into_def split: prod.splits)

lemma move_images_loop_stop:
  assumes "\<forall>oc \<in> set (outcomes (move_into ops folder) pre st). \<not> failed oc"
    and "move_into ops folder f (state_after (move_into ops folder) pre st) = (r, st')"
    and "has_error r"
  shows "move_images_loop ops folder (pre @ f # post) st = (Some (error_line ''moving'' (f, r)), st')"
  using assms
  by (induction pre arbitrary: st) (auto simp: failed_def error_line_def move_into_def split: prod.splits)

lemma delete_all_loop_eq:
  "delete_all_loop ops files n errs st =
     (n + length (filter (\<lambda>oc. \<not> failed oc) (outcomes (fs_delete_file ops) files st)),
      errs @ map (error_line ''deleting'') (filter failed (outcomes (fs_delete_file ops) files st)),
      state_after (fs_delete_file ops) files st)"
  by (induction files arbitrary: n errs st) (auto simp: failed_def error_line_def split: prod.splits)


text \<open>
  C4. The macros call the file system once for each target, in the order of the
  listing. \<open>delete_images\<close> and \<open>move_images_to_folder\<close> stop at the first target
  whose call returns an error: the reply is the error line of that target alone, and
  the state is the one that call left, so no later target is touched.
  \<open>delete_all_files_in_current_folder\<close> calls \<open>delete_file\<close> for every target,
  whatever the results; when some calls failed, its reply gives the number of calls
  that succeeded and the error line of every failed one.
\<close>

theorem bulk_macros_error_policy:
  fixes ops :: "'st filesystem"
  assumes listed: "\<not> has_error (fs_list_directory ops ''.'' st)"
  shows
    "(image_files_of (fs_list_directory ops ''.'' st) = pre @ f # post
      \<and> (\<forall>oc \<in> set (outcomes (fs_delete_file ops) pre st). \<not> failed oc)
      \<and> failed (f, fst (fs_delete_file ops f (state_after (fs_delete_file ops) pre st)))
      \<longrightarrow> delete_images ops st =
            (error_line ''deleting'' (f, fst (fs_delete_file ops f (state_after (fs_delete_file ops) pre st))),
             state_after (fs_delete_file ops) (pre @ [f]) st))
     \<and> (image_files_of (fs_list_directory ops ''.'' st) = pre @ f # post
      \<and> (\<forall>oc \<in> set (outcomes (move_into ops folder) pre st). \<not> failed oc)
      \<and> failed (f, fst (move_into ops folder f (state_after (move_into ops folder) pre st)))
      \<longrightarrow> move_images_to_folder ops folder st =
            (error_line ''moving'' (f, fst (move_into ops folder f (state_after (move_into ops folder) pre st))),
             state_after (move_into ops folder) (pre @ [f]) st))
     \<and> (files_of (fs_list_directory ops ''.'' st) \<noteq> []
      \<longrightarrow> delete_all_files_in_current_folder ops st =
            (let results = outcomes (fs_delete_file ops) (files_of (fs_list_directory ops ''.'' st)) st
             in if filter failed results = []
                then check_mark @ '' Successfully deleted '' @ str_nat (length results)
                     @ '' files in the current folder.''
                else check_mark @ '' Deleted '' @ str_nat (length (filter (\<lambda>oc. \<not> failed oc) results))
                     @ '' files. Some errors occurred: ''
                     @ join ''; '' (map (error_line ''deleting'') (filter failed results)),
             state_after (fs_delete_file ops) (files_of (fs_list_directory ops ''.'' st)) st))"
proof (intro conjI impI)
  let ?del = "fs_delete_file ops"
  assume a: "image_files_of (fs_list_directory ops ''.'' st) = pre @ f # post
      \<and> (\<forall>oc \<in> set (outcomes ?del pre st). \<not> failed oc)
      \<and> failed (f, fst (?del f (state_after ?del pre st)))"
  obtain r st' where r: "?del f (state_after ?del pre st) = (r, st')" by force
  with a have "delete_images_loop ops (pre @ f # post) st = (Some (error_line ''deleting'' (f, r)), st')"
    by (intro delete_images_loop_stop) (auto simp: failed_def)
  with a r listed show "delete_images ops st =
            (error_line ''deleting'' (f, fst (?del f (state_after ?del pre st))),
             state_after ?del (pre @ [f]) st)"
    by (simp add: delete_images_def Let_def state_after_append)
next
  let ?mv = "move_into ops folder"
  assume a: "image_files_of (fs_list_directory ops ''.'' st) = pre @ f # post
      \<and> (\<forall>oc \<in> set (outcomes ?mv pre st). \<not> failed oc)
      \<and> failed (f, fst (?mv f (state_after ?mv pre st)))"
  obtain r st' where r: "?mv f (state_after ?mv pre st) = (r, st')" by force
  with a have "move_images_loop ops folder (pre @ f # post) st = (Some (error_line ''moving'' (f, r)), st')"
    by (intro move_images_loop_stop) (auto simp: failed_def)
  with a r listed show "move_images_to_folder ops folder st =
            (error_line ''moving'' (f, fst (?mv f (state_after ?mv pre st))),
             state_after ?mv (pre @ [f]) st)"
    by (simp add: move_images_to_folder_def Let_def state_after_append)
next
  let ?del = "fs_delete_file ops"
  let ?files = "files_of (fs_list_directory ops ''.'' st)"
  assume ne: "?files \<noteq> []"
  have all_ok: "filter failed rs = [] \<Longrightarrow> filter (\<lambda>oc. \<not> failed oc) rs = rs" for rs :: "(string \<times> payload) list"
    by (induction rs) (auto split: if_splits)
  show "delete_all_files_in_current_folder ops st =
            (let results = outcomes ?del ?files st
             in if filter failed results = []
                then check_mark @ '' Successfully deleted '' @ str_nat (length results)
                     @ '' files in the current folder.''
                else check_mark @ '' Deleted '' @ str_nat (length (filter (\<lambda>oc. \<not> failed oc) results))
                     @ '' files. Some errors occurred: ''
                     @ join ''; '' (map (error_line ''deleting'') (filter failed results)),
             state_after ?del ?files st)"
    using listed ne
    by (simp add: delete_all_files_in_current_folder_def Let_def delete_all_loop_eq files_of_def
        all_ok)
qed


theorem bulk_macros_error_policy_witness:
  "\<not> has_error (fs_list_directory log_ops ''.'' [])
   \<and> image_files_of (fs_list_directory log_ops ''.'' []) = [''a.jpg''] @ ''b.png'' # [''c.GIF'']
   \<and> delete_images log_ops [] =
       (cross_mark @ '' Error deleting b.png: Permission denied'', [''a.jpg'', ''b.png''])
   \<and> move_images_to_folder log_ops ''pics'' [] =
       (cross_mark @ '' Error moving b.png: Permission denied'', [''./a.jpg'', ''./b.png''])
   \<and> delete_all_files_in_current_folder log_ops [] =
       (check_mark @ '' Deleted 3 files. Some errors occurred: '' @ cross_mark
        @ '' Error deleting b.png: Permission denied'',
        [''a.jpg'', ''b.png'', ''c.GIF'', ''notes.txt''])"
proof -
  let ?del = "fs_delete_file log_ops"
  let ?mv = "move_into log_ops ''pics''"
  let ?files = "files_of (fs_list_directory log_ops ''.'' [])"
  have l: "\<not> has_error (fs_list_directory log_ops ''.'' [])"
    by code_simp
  have i: "image_files_of (fs_list_directory log_ops ''.'' []) = [''a.jpg''] @ ''b.png'' # [''c.GIF'']"
    by code_simp
  have d1: "\<forall>oc \<in> set (outcomes ?del [''a.jpg''] []). \<not> failed oc"
    by code_simp
  have d2: "failed (''b.png'', fst (?del ''b.png'' (state_after ?del [''a.jpg''] [])))"
    by code_simp
  have d3: "(error_line ''deleting'' (''b.png'', fst (?del ''b.png'' (state_after ?del [''a.jpg''] []))),
             state_after ?del ([''a.jpg''] @ [''b.png'']) [])
            = (cross_mark @ '' Error deleting b.png: Permission denied'', [''a.jpg'', ''b.png''])"
    by code_simp
  have m1: "\<forall>oc \<in> set (outcomes ?mv [''a.jpg''] []). \<not> failed oc"
    by code_simp
  have m2: "failed (''b.png'', fst (?mv ''b.png'' (state_after ?mv [''a.jpg''] [])))"
    by code_simp
  have m3: "(error_line ''moving'' (''b.png'', fst (?mv ''b.png'' (state_after ?mv [''a.jpg''] []))),
             state_after ?mv ([''a.jpg''] @ [''b.png'']) [])
            = (cross_mark @ '' Error moving b.png: Permission denied'', [''./a.jpg'', ''./b.png''])"
    by code_simp
  have a1: "?files \<noteq> []"
    by code_simp
  have a3: "(let results = outcomes ?del ?files []
             in if filter failed results = []
                then check_mark @ '' Successfully deleted '' @ str_nat (length results)
                     @ '' files in the current folder.''
                else check_mark @ '' Deleted '' @ str_nat (length (filter (\<lambda>oc. \<not> failed oc) results))
                     @ '' files. Some errors occurred: ''
                     @ join ''; '' (map (error_line ''deleting'') (filter failed results)),
             state_after ?del ?files [])
            = (check_mark @ '' Deleted 3 files. Some errors occurred: '' @ cross_mark
               @ '' Error deleting b.png: Permission denied'',
               [''a.jpg'', ''b.png'', ''c.GIF'', ''notes.txt''])"
    by code_simp
  note t = bulk_macros_error_policy [OF l, of "[''a.jpg'']" "''b.png''" "[''c.GIF'']" "''pics''"]
  from t i d1 d2 have "delete_images log_ops [] =
            (error_line ''deleting'' (''b.png'', fst (?del ''b.png'' (state_after ?del [''a.jpg''] []))),
             state_after ?del ([''a.jpg''] @ [''b.png'']) [])"
    by blast
  with d3 have r1: "delete_images log_ops [] =
       (cross_mark @ '' Error deleting b.png: Permission denied'', [''a.jpg'', ''b.png''])"
    by (simp only:)
  from t i m1 m2 have "move_images_to_folder log_ops ''pics'' [] =
            (error_line ''moving'' (''b.png'', fst (?mv ''b.png'' (state_after ?mv [''a.jpg''] []))),
             state_after ?mv ([''a.jpg''] @ [''b.png'']) [])"
    by blast
  with m3 have r2: "move_images_to_folder log_ops ''pics'' [] =
       (cross_mark @ '' Error moving b.png: Permission denied'', [''./a.jpg'', ''./b.png''])"
    by (simp only:)
  from t a1 have "delete_all_files_in_current_folder log_ops [] =
            (let results = outcomes ?del ?files []
             in if filter failed results = []
                then check_mark @ '' Successfully deleted '' @ str_nat (length results)
                     @ '' files in the current folder.''
                else check_mark @ '' Deleted '' @ str_nat (length (filter (\<lambda>oc. \<not> failed oc) results))
                     @ '' files. Some errors occurred: ''
                     @ join ''; '' (map (error_line ''deleting'') (filter failed results)),
             state_after ?del ?files [])"
    by blast
  with a3 have r3: "delete_all_files_in_current_folder log_ops [] =
       (check_mark @ '' Deleted 3 files. Some errors occurred: '' @ cross_mark
        @ '' Error deleting b.png: Permission denied'',
        [''a.jpg'', ''b.png'', ''c.GIF'', ''notes.txt''])"
    by (simp only:)
  from l i r1 r2 r3 show ?thesis by (simp only: simp_thms)
qed

section \<open>Properties of the matcher\<close>

lemma first_some_None_iff: "first_some f xs = None \<longleftrightarrow> (\<forall>x \<in> set xs. f x = None)"
  by (induction xs) (auto split: option.splits)

lemma first_some_hd: "f x = Some y \<Longrightarrow> first_some f (x # xs) = Some y"
  by simp

lemma first_some_skip: "f x = None \<Longrightarrow> first_some f (x # xs) = first_some f xs"
  by simp

lemma first_some_find:
  "first_some (\<lambda>x. if P x then Some (F x) else None) xs = map_option F (find P xs)"
  by (induction xs) auto

lemma greedy_split: "(t, r) \<in> set (greedy c s) \<Longrightarrow> t @ r = s \<and> list_all (in_cls c) t"
  by (induction s arbitrary: t r) (auto split: if_splits)

lemma greedy_hd: "\<exists>rest. greedy c s = (takeWhile (in_cls c) s, dropWhile (in_cls c) s) # rest
   \<and> (\<forall>(t, r) \<in> set rest. \<exists>x r'. r = x # r' \<and> in_cls c x)"
proof (induction s)
  case Nil
  then show ?case by simp
next
  case (Cons x xs)
  show ?case
  proof (cases "in_cls c x")
    case False
    then show ?thesis by simp
  next
    case True
    from Cons obtain rest where rest: "greedy c xs = (takeWhile (in_cls c) xs, dropWhile (in_cls c) xs) # rest"
      and tl: "\<forall>(t, r) \<in> set rest. \<exists>y r'. r = y # r' \<and> in_cls c y" by blast
    have "greedy c (x # xs) = (takeWhile (in_cls c) (x # xs), dropWhile (in_cls c) (x # xs))
            # (map (\<lambda>(t, r). (x # t, r)) rest @ [([], x # xs)])"
      using True rest by simp
    moreover have "\<forall>(t, r) \<in> set (map (\<lambda>(t, r). (x # t, r)) rest @ [([], x # xs)]). \<exists>y r'. r = y # r' \<and> in_cls c y"
      using tl True by auto
    ultimately show ?thesis by blast
  qed
qed

lemma lazy_any: "rev (greedy AnyChar u) = map (\<lambda>i. (take i u, drop i u)) [0..<Suc (length u)]"
proof (induction u)
  case Nil
  then show ?case by simp
next
  case (Cons c cs)
  have "rev (greedy AnyChar (c # cs)) = ([], c # cs) # map (\<lambda>(t, r). (c # t, r)) (rev (greedy AnyChar cs))"
    by (simp add: rev_map)
  also have "map (\<lambda>(t, r). (c # t, r)) (rev (greedy AnyChar cs))
           = map (\<lambda>i. (take i (c # cs), drop i (c # cs))) (map Suc [0..<Suc (length cs)])"
    by (simp add: Cons)
  also have "([], c # cs) # \<dots> = map (\<lambda>i. (take i (c # cs), drop i (c # cs))) (0 # map Suc [0..<Suc (length cs)])"
    by simp
  also have "0 # map Suc [0..<Suc (length cs)] = [0..<Suc (length (c # cs))]"
    by (simp add: map_Suc_upt upt_conv_Cons del: upt_Suc)
  finally show ?case .
qed

lemma greedy_any_set: "set (greedy AnyChar u) = {(t, r). t @ r = u}"
proof (induction u)
  case Nil
  then show ?case by auto
next
  case (Cons c cs)
  have "set (greedy AnyChar (c # cs)) = (\<lambda>(t, r). (c # t, r)) ` {(t, r). t @ r = cs} \<union> {([], c # cs)}"
    using Cons by simp
  also have "\<dots> = {(t, r). t @ r = c # cs}"
  proof (intro set_eqI iffI)
    fix x assume "x \<in> (\<lambda>(t, r). (c # t, r)) ` {(t, r). t @ r = cs} \<union> {([], c # cs)}"
    then show "x \<in> {(t, r). t @ r = c # cs}" by auto
  next
    fix x assume "x \<in> {(t, r). t @ r = c # cs}"
    then obtain t r where x: "x = (t, r)" and tr: "t @ r = c # cs" by auto
    show "x \<in> (\<lambda>(t, r). (c # t, r)) ` {(t, r). t @ r = cs} \<union> {([], c # cs)}"
    proof (cases t)
      case Nil
      with x tr show ?thesis by simp
    next
      case (Cons d t')
      with tr have "d = c" "t' @ r = cs" by auto
      with x Cons show ?thesis by (auto simp: image_iff)
    qed
  qed
  finally show ?case .
qed


section \<open>Properties of \<open>strip\<close>\<close>

lemma lstrip_ws: "list_all isspace w \<Longrightarrow> lstrip (w @ x) = lstrip x"
  by (induction w) (auto simp: lstrip_def)

lemma lstrip_nonws: "\<not> isspace c \<Longrightarrow> lstrip (c # x) = c # x"
  by (simp add: lstrip_def)

lemma lstrip_decomp: "\<exists>w. s = w @ lstrip s \<and> list_all isspace w"
  by (rule exI [of _ "takeWhile isspace s"]) (auto simp: lstrip_def list_all_iff dest: set_takeWhileD)

lemma lstrip_hd: "lstrip s = c # u \<Longrightarrow> \<not> isspace c"
  unfolding lstrip_def using hd_dropWhile [of isspace s] by auto

lemma rstrip_ws: "list_all isspace w \<Longrightarrow> rstrip (x @ w) = rstrip x"
proof -
  assume "list_all isspace w"
  then have "list_all isspace (rev w)" by (simp add: list_all_iff)
  then have "dropWhile isspace (rev w @ rev x) = dropWhile isspace (rev x)"
    by (induction "rev w" arbitrary: w) (auto simp: list_all_iff dropWhile_append)
  then show ?thesis by (simp add: rstrip_def)
qed

lemma rstrip_nonws: "\<not> isspace c \<Longrightarrow> rstrip (x @ [c]) = x @ [c]"
  by (simp add: rstrip_def)

lemma rstrip_Cons_nonws: "\<not> isspace c \<Longrightarrow> rstrip (c # x) = c # rstrip x"
  by (auto simp: rstrip_def dropWhile_append)

lemma rstrip_decomp: "\<exists>w. s = rstrip s @ w \<and> list_all isspace w"
proof -
  from lstrip_decomp [of "rev s"] obtain w where w: "rev s = w @ lstrip (rev s)" "list_all isspace w"
    by blast
  then have "s = rev (lstrip (rev s)) @ rev w"
    by (metis rev_append rev_rev_ident)
  then have "s = rstrip s @ rev w" by (simp add: rstrip_def lstrip_def)
  moreover have "list_all isspace (rev w)" using w(2) by (simp add: list_all_iff)
  ultimately show ?thesis by blast
qed

lemma rstrip_last: "rstrip s \<noteq> [] \<Longrightarrow> \<not> isspace (last (rstrip s))"
proof -
  assume ne: "rstrip s \<noteq> []"
  then have "dropWhile isspace (rev s) \<noteq> []" by (simp add: rstrip_def)
  then have "\<not> isspace (hd (dropWhile isspace (rev s)))" by (rule hd_dropWhile)
  with ne show ?thesis by (simp add: rstrip_def last_rev)
qed

lemma strip_ws_nonws: "list_all isspace w \<Longrightarrow> \<not> isspace c \<Longrightarrow> strip (w @ c # x) = c # rstrip x"
  by (simp add: strip_def lstrip_ws lstrip_nonws rstrip_Cons_nonws)

lemma strip_all_ws: "list_all isspace w \<Longrightarrow> strip w = []"
proof -
  assume "list_all isspace w"
  then have "lstrip w = []" by (simp add: lstrip_def list_all_iff dropWhile_eq_Nil_conv)
  then show ?thesis by (simp add: strip_def rstrip_def)
qed

lemma strip_lstrip: "strip (lstrip s) = strip s"
  by (simp add: strip_def lstrip_def)

lemma strip_strip: "strip (strip s) = strip s"
proof (cases "lstrip s")
  case Nil
  then have "strip s = []" by (simp add: strip_def rstrip_def)
  moreover have "strip [] = []" by (simp add: strip_def rstrip_def lstrip_def)
  ultimately show ?thesis by simp
next
  case (Cons c u)
  then have c: "\<not> isspace c" by (rule lstrip_hd)
  have "strip s = c # rstrip u" using Cons c by (simp add: strip_def rstrip_Cons_nonws)
  moreover have "rstrip (rstrip u) = rstrip u"
    using rstrip_decomp [of "rstrip u"] rstrip_last [of u]
    by (cases "rstrip u" rule: rev_cases) (auto simp: rstrip_nonws)
  ultimately show ?thesis using c by (simp add: strip_def lstrip_nonws rstrip_Cons_nonws)
qed

lemma run_Nil: "run [] g s = Some g"
  by (simp add: run_def accept_def)

lemma run_group:
  "run (Group n q c # pat) g s = first_some (\<lambda>(t, r). run pat (g(n \<mapsto> t)) r) (cands q c s)"
  by (simp add: run_def)

lemma run_rep: "run (Rep q c # pat) g s = first_some (\<lambda>(t, r). run pat g r) (cands q c s)"
  by (simp add: run_def)

lemma run_lit:
  "run (Lit l # pat) g s = (if prefix l s then run pat g (drop (length l) s) else None)"
  by (simp add: run_def)

lemma run_backref:
  "run (Backref n # pat) g s =
     (case g n of None \<Rightarrow> None
      | Some t \<Rightarrow> if prefix t s then run pat g (drop (length t) s) else None)"
  by (simp add: run_def split: option.split)

lemma run_eos:
  "run (EndOfString # pat) g s = (if s = [] \<or> s = [CHR 0x0A] then run pat g s else None)"
  by (simp add: run_def)

lemma greedy_space:
  "\<exists>rest. greedy SpaceCls v = (takeWhile isspace v, lstrip v) # rest
     \<and> (\<forall>t r. (t, r) \<in> set rest \<longrightarrow> (\<exists>x r'. r = x # r' \<and> isspace x))"
proof -
  have eq: "in_cls SpaceCls = isspace" by (rule ext) simp
  from greedy_hd [of SpaceCls v] show ?thesis
    unfolding eq lstrip_def by blast
qed

lemma run_ws_first:
  assumes "run pat g (lstrip v) = Some y"
  shows "run (Rep Star SpaceCls # pat) g v = Some y"
proof -
  obtain rest where "greedy SpaceCls v = (takeWhile isspace v, lstrip v) # rest"
    using greedy_space [of v] by blast
  with assms show ?thesis by (simp add: run_rep cands_def)
qed

lemma run_ws_skip:
  assumes "\<And>x r. isspace x \<Longrightarrow> run pat g (x # r) = None"
  shows "run (Rep Star SpaceCls # pat) g v = run pat g (lstrip v)"
proof -
  obtain rest where g: "greedy SpaceCls v = (takeWhile isspace v, lstrip v) # rest"
    and r: "\<And>t r. (t, r) \<in> set rest \<Longrightarrow> \<exists>x r'. r = x # r' \<and> isspace x"
    using greedy_space [of v] by blast
  have "first_some (\<lambda>(t, r). run pat g r) rest = None"
    unfolding first_some_None_iff using r assms by fastforce
  with g show ?thesis by (cases "run pat g (lstrip v)") (simp_all add: run_rep cands_def)
qed

lemma run_ws_end:
  "run [Rep Star SpaceCls, EndOfString] g v = (if list_all isspace v then Some g else None)"
proof (cases "list_all isspace v")
  case True
  then have "lstrip v = []" by (simp add: lstrip_def list_all_iff)
  then have "run [EndOfString] g (lstrip v) = Some g" by (simp add: run_eos run_Nil)
  then have "run [Rep Star SpaceCls, EndOfString] g v = Some g" by (rule run_ws_first)
  with True show ?thesis by simp
next
  case False
  have "first_some (\<lambda>(t, r). run [EndOfString] g r) (greedy SpaceCls v) = None"
    unfolding first_some_None_iff
  proof
    fix x assume x: "x \<in> set (greedy SpaceCls v)"
    obtain t r where tr: "x = (t, r)" by (cases x)
    with x have "t @ r = v" "list_all isspace t"
      using greedy_split [of t r SpaceCls v] by (auto simp: list_all_iff)
    with False have "\<not> list_all isspace r" by auto
    then have "r \<noteq> []" "r \<noteq> [CHR 0x0A]" by (auto simp: isspace_def)
    with tr show "(case x of (t, r) \<Rightarrow> run [EndOfString] g r) = None" by (simp add: run_eos)
  qed
  with False show ?thesis by (simp add: run_rep cands_def)
qed

lemma first_some_unique:
  assumes "x \<in> set xs" and "f x = Some y" and "\<And>x'. x' \<in> set xs \<Longrightarrow> x' \<noteq> x \<Longrightarrow> f x' = None"
  shows "first_some f xs = Some y"
  using assms
proof (induction xs)
  case Nil
  then show ?case by simp
next
  case (Cons a xs)
  show ?case
  proof (cases "a = x")
    case True
    with Cons.prems show ?thesis by simp
  next
    case False
    with Cons.prems have "f a = None" "x \<in> set xs" by auto
    with Cons show ?thesis by simp
  qed
qed

lemma run_content_plain:
  assumes "g 3 = Some []"
  shows "run [Group 4 Star AnyChar, Backref 3, Rep Star SpaceCls, EndOfString] g u = Some (g(4 \<mapsto> u))"
proof -
  obtain rest where "greedy AnyChar u = (u, []) # rest"
    using greedy_hd [of AnyChar u] by auto
  then show ?thesis using assms
    by (simp add: run_group run_backref cands_def run_ws_end)
qed

lemma run_content_quoted:
  assumes g3: "g 3 = Some [c]" and c: "\<not> isspace c"
  shows "run [Group 4 Star AnyChar, Backref 3, Rep Star SpaceCls, EndOfString] g u =
           (if rstrip u \<noteq> [] \<and> last (rstrip u) = c then Some (g(4 \<mapsto> butlast (rstrip u))) else None)"
proof -
  let ?k = "\<lambda>(t, r). run [Backref 3, Rep Star SpaceCls, EndOfString] (g(4 \<mapsto> t)) r"
  have k: "run [Backref 3, Rep Star SpaceCls, EndOfString] (g(4 \<mapsto> t)) r
           = (if \<exists>w. r = c # w \<and> list_all isspace w then Some (g(4 \<mapsto> t)) else None)" for t r
    using g3 by (cases r) (auto simp: run_backref run_ws_end)
  have run: "run [Group 4 Star AnyChar, Backref 3, Rep Star SpaceCls, EndOfString] g u
        = first_some ?k (greedy AnyChar u)"
    by (simp add: run_group cands_def)
  obtain w where w: "u = rstrip u @ w" "list_all isspace w" using rstrip_decomp by blast
  show ?thesis
  proof (cases "rstrip u \<noteq> [] \<and> last (rstrip u) = c")
    case True
    then have ru: "rstrip u = butlast (rstrip u) @ [c]" by (metis append_butlast_last_id)
    let ?t = "butlast (rstrip u)"
    have u: "u = ?t @ c # w" using w ru by (metis append.assoc append_Cons append_Nil)
    then have mem: "(?t, c # w) \<in> set (greedy AnyChar u)" by (simp add: greedy_any_set)
    have "first_some ?k (greedy AnyChar u) = Some (g(4 \<mapsto> ?t))"
    proof (rule first_some_unique [OF mem])
      show "?k (?t, c # w) = Some (g(4 \<mapsto> ?t))" using w(2) by (simp add: k)
    next
      fix x' assume x': "x' \<in> set (greedy AnyChar u)" "x' \<noteq> (?t, c # w)"
      obtain t' r' where tr: "x' = (t', r')" by (cases x')
      with x' have split: "t' @ r' = u" by (simp add: greedy_any_set)
      show "?k x' = None"
      proof (rule ccontr)
        assume "?k x' \<noteq> None"
        with tr obtain w' where r': "r' = c # w'" "list_all isspace w'"
          by (auto simp: k split: if_splits)
        with split have "rstrip u = t' @ [c]"
          using rstrip_ws [of w' "t' @ [c]"] c by (simp add: rstrip_nonws)
        then have "t' = ?t" by simp
        with split u have "r' = c # w" by (metis same_append_eq)
        with \<open>t' = ?t\<close> tr x'(2) show False by simp
      qed
    qed
    with True run show ?thesis by simp
  next
    case False
    have "first_some ?k (greedy AnyChar u) = None"
      unfolding first_some_None_iff
    proof
      fix x assume x: "x \<in> set (greedy AnyChar u)"
      obtain t' r' where tr: "x = (t', r')" by (cases x)
      with x have split: "t' @ r' = u" by (simp add: greedy_any_set)
      show "?k x = None"
      proof (rule ccontr)
        assume "?k x \<noteq> None"
        with tr obtain w' where r': "r' = c # w'" "list_all isspace w'"
          by (auto simp: k split: if_splits)
        with split have "rstrip u = t' @ [c]"
          using rstrip_ws [of w' "t' @ [c]"] c by (simp add: rstrip_nonws)
        with False show False by simp
      qed
    qed
    with False run show ?thesis by simp
  qed
qed

lemma quote_not_space: "in_cls QuoteCls c \<Longrightarrow> \<not> isspace c"
  by (auto simp: isspace_def)

lemma strip_Cons: "lstrip r = c # u \<Longrightarrow> strip r = c # rstrip u"
  using lstrip_hd [of r c u] by (simp add: strip_def rstrip_Cons_nonws)

lemma wrapped_Cons:
  "wrapped (c # x) \<longleftrightarrow> in_cls QuoteCls c \<and> x \<noteq> [] \<and> last x = c"
  by (cases x) (auto simp: wrapped_def)

lemma run_tail:
  "\<exists>q g4. run tail_pat g r = Some (g(3 \<mapsto> q, 4 \<mapsto> g4)) \<and> strip g4 = strip (unwrap (strip r))"
proof -
  let ?content = "[Group 4 Star AnyChar, Backref 3, Rep Star SpaceCls, EndOfString]"
  have "\<exists>q g4. run (Group 3 Opt QuoteCls # ?content) g (lstrip r) = Some (g(3 \<mapsto> q, 4 \<mapsto> g4))
          \<and> strip g4 = strip (unwrap (strip r))"
  proof (cases "lstrip r")
    case Nil
    then have "strip r = []" by (simp add: strip_def rstrip_def)
    moreover have "run ?content (g(3 \<mapsto> [])) [] = Some (g(3 \<mapsto> [], 4 \<mapsto> []))"
      by (simp add: run_content_plain)
    then have "run (Group 3 Opt QuoteCls # ?content) g [] = Some (g(3 \<mapsto> [], 4 \<mapsto> []))"
      by (simp add: run_group cands_def)
    ultimately show ?thesis using Nil by (auto simp: unwrap_def wrapped_def)
  next
    case (Cons c u)
    then have sr: "strip r = c # rstrip u" by (rule strip_Cons)
    have plain: "run ?content (g(3 \<mapsto> [])) (c # u) = Some (g(3 \<mapsto> [], 4 \<mapsto> c # u))"
      by (simp add: run_content_plain)
    have sl: "strip (c # u) = strip r" using Cons strip_lstrip [of r] by simp
    show ?thesis
    proof (cases "in_cls QuoteCls c \<and> rstrip u \<noteq> [] \<and> last (rstrip u) = c")
      case True
      then have "run ?content (g(3 \<mapsto> [c])) u = Some (g(3 \<mapsto> [c], 4 \<mapsto> butlast (rstrip u)))"
        using run_content_quoted [of "g(3 \<mapsto> [c])" c u] quote_not_space [of c] by simp
      then have "run (Group 3 Opt QuoteCls # ?content) g (c # u)
                   = Some (g(3 \<mapsto> [c], 4 \<mapsto> butlast (rstrip u)))"
        using True by (simp add: run_group cands_def)
      moreover have "unwrap (strip r) = butlast (rstrip u)"
        using True sr by (simp add: unwrap_def wrapped_Cons)
      ultimately show ?thesis using Cons by auto
    next
      case False
      then have nw: "\<not> wrapped (strip r)" using sr by (simp add: wrapped_Cons)
      have "run (Group 3 Opt QuoteCls # ?content) g (c # u) = Some (g(3 \<mapsto> [], 4 \<mapsto> c # u))"
      proof (cases "in_cls QuoteCls c")
        case q: True
        with False have "run ?content (g(3 \<mapsto> [c])) u = None"
          using run_content_quoted [of "g(3 \<mapsto> [c])" c u] quote_not_space [of c] by auto
        with q plain show ?thesis by (simp add: run_group cands_def)
      next
        case q: False
        with plain show ?thesis by (simp add: run_group cands_def)
      qed
      moreover have "strip (c # u) = strip (unwrap (strip r))"
        using nw sl by (simp add: unwrap_def strip_strip)
      ultimately show ?thesis using Cons by auto
    qed
  qed
  then obtain q g4 where
    "run (Group 3 Opt QuoteCls # ?content) g (lstrip r) = Some (g(3 \<mapsto> q, 4 \<mapsto> g4))"
    "strip g4 = strip (unwrap (strip r))" by blast
  then show ?thesis
    unfolding tail_pat_def using run_ws_first by blast
qed

lemma run_sep:
  "run sep_pat g v = (case lstrip v of [] \<Rightarrow> None
                      | c # b \<Rightarrow> if c = CHR '','' then run tail_pat g b else None)"
proof -
  have "run (Lit '','' # tail_pat) g (x # r) = None" if "isspace x" for x r
    using that by (auto simp: run_lit isspace_def)
  then have "run sep_pat g v = run (Lit '','' # tail_pat) g (lstrip v)"
    unfolding sep_pat_def by (rule run_ws_skip)
  then show ?thesis by (cases "lstrip v") (auto simp: run_lit)
qed

lemma closing_iff: "closing q r \<longleftrightarrow> prefix q r \<and> (\<exists>b. lstrip (drop (length q) r) = CHR '','' # b)"
proof
  assume "closing q r"
  then obtain w b where "r = q @ w @ CHR '','' # b" "list_all isspace w" by (auto simp: closing_def)
  then show "prefix q r \<and> (\<exists>b. lstrip (drop (length q) r) = CHR '','' # b)"
    by (simp add: lstrip_ws lstrip_nonws isspace_def)
next
  assume a: "prefix q r \<and> (\<exists>b. lstrip (drop (length q) r) = CHR '','' # b)"
  then obtain b where b: "lstrip (drop (length q) r) = CHR '','' # b" by blast
  from lstrip_decomp [of "drop (length q) r"] obtain w where
    "drop (length q) r = w @ lstrip (drop (length q) r)" "list_all isspace w" by blast
  moreover from a have "r = q @ drop (length q) r" by (auto simp: prefix_def)
  ultimately show "closing q r" using b unfolding closing_def by metis
qed

lemma after_closing_eq:
  "list_all isspace w \<Longrightarrow> after_closing q (q @ w @ CHR '','' # b) = b"
  by (simp add: after_closing_def lstrip_ws lstrip_nonws isspace_def)

lemma run_backref_sep:
  assumes "g 1 = Some q"
  shows "run (Backref 1 # sep_pat) g r = (if closing q r then run tail_pat g (after_closing q r) else None)"
  using assms
  by (auto simp: run_backref run_sep closing_iff after_closing_def split: list.splits)

lemma first_some_map: "first_some f (map h xs) = first_some (\<lambda>x. f (h x)) xs"
  by (induction xs) (auto split: option.splits)

lemma first_some_if_find:
  assumes "\<And>x. P x \<Longrightarrow> F x \<noteq> None"
  shows "first_some (\<lambda>x. if P x then F x else None) xs
           = (case find P xs of None \<Rightarrow> None | Some x \<Rightarrow> F x)"
proof (induction xs)
  case Nil
  then show ?case by simp
next
  case (Cons a xs)
  show ?case
  proof (cases "P a")
    case True
    with assms obtain y where "F a = Some y" by blast
    with True show ?thesis by simp
  next
    case False
    with Cons show ?thesis by simp
  qed
qed

lemma run_tail_Some: "run tail_pat g r \<noteq> None"
  using run_tail [of g r] by auto

lemma run_path:
  assumes "g 1 = Some q"
  shows "run (Group 2 LazyStar AnyChar # Backref 1 # sep_pat) g u =
     (case find (\<lambda>i. closing q (drop i u)) [0..<Suc (length u)] of
        None \<Rightarrow> None
      | Some i \<Rightarrow> run tail_pat (g(2 \<mapsto> take i u)) (after_closing q (drop i u)))"
proof -
  have "run (Group 2 LazyStar AnyChar # Backref 1 # sep_pat) g u
      = first_some (\<lambda>i. run (Backref 1 # sep_pat) (g(2 \<mapsto> take i u)) (drop i u)) [0..<Suc (length u)]"
    by (simp only: run_group cands_def quant.case lazy_any first_some_map case_prod_conv)
  also have "\<dots> = first_some (\<lambda>i. if closing q (drop i u)
                                   then run tail_pat (g(2 \<mapsto> take i u)) (after_closing q (drop i u))
                                   else None) [0..<Suc (length u)]"
  proof -
    have "(g(2 \<mapsto> t)) 1 = Some q" for t using assms by simp
    then show ?thesis by (simp only: run_backref_sep)
  qed
  also have "\<dots> = (case find (\<lambda>i. closing q (drop i u)) [0..<Suc (length u)] of
        None \<Rightarrow> None
      | Some i \<Rightarrow> run tail_pat (g(2 \<mapsto> take i u)) (after_closing q (drop i u)))"
    by (rule first_some_if_find) (rule run_tail_Some)
  finally show ?thesis .
qed

lemma find_upt_Some:
  "find P [0..<n] = Some i \<longleftrightarrow> i < n \<and> P i \<and> (\<forall>j<i. \<not> P j)"
  by (auto simp: find_Some_iff)

lemma find_upt_None: "find P [0..<n] = None \<longleftrightarrow> (\<forall>i<n. \<not> P i)"
  by (auto simp: find_None_iff)

lemma closing_comma: "closing q r \<Longrightarrow> CHR '','' \<in> set r"
  by (auto simp: closing_def)

lemma no_comma_no_closing: "CHR '','' \<notin> set r \<Longrightarrow> \<not> closing q (drop i r)"
  using closing_comma [of q "drop i r"] set_drop_subset [of i r] by auto

lemma write_file_pattern_eq: "write_file_pattern = Rep Star SpaceCls # path_pat"
  by (simp add: write_file_pattern_def path_pat_def sep_pat_def tail_pat_def)

lemma run_path_none:
  assumes "CHR '','' \<notin> set r"
  shows "run path_pat g r = None"
proof -
  have n: "run (Group 2 LazyStar AnyChar # Backref 1 # sep_pat) (g(1 \<mapsto> q)) u = None"
    if "CHR '','' \<notin> set u" for q u
  proof -
    have "(g(1 \<mapsto> q)) 1 = Some q" by simp
    moreover have "find (\<lambda>i. closing q (drop i u)) [0..<Suc (length u)] = None"
      unfolding find_upt_None using that no_comma_no_closing [of u q] by blast
    ultimately show ?thesis by (simp only: run_path option.case)
  qed
  show ?thesis
    unfolding path_pat_def using assms
    by (cases r) (auto simp: run_group [of 1] cands_def n simp del: One_nat_def)
qed

lemma match_none:
  assumes "CHR '','' \<notin> set s"
  shows "re_match write_file_pattern s = None"
proof -
  have "first_some (\<lambda>(t, r). run path_pat Map.empty r) (greedy SpaceCls s) = None"
    unfolding first_some_None_iff
  proof
    fix x assume x: "x \<in> set (greedy SpaceCls s)"
    obtain t r where tr: "x = (t, r)" by (cases x)
    with x have "t @ r = s" using greedy_split [of t r SpaceCls s] by auto
    with assms have "CHR '','' \<notin> set r" by auto
    with tr show "(case x of (t, r) \<Rightarrow> run path_pat Map.empty r) = None"
      by (simp add: run_path_none)
  qed
  then show ?thesis
    by (simp add: re_match_def write_file_pattern_eq run_rep cands_def)
qed

section \<open>The separating comma of the \<open>write_file\<close> arguments\<close>

lemma comma_prefixes_mem:
  "a \<in> set (comma_prefixes s) \<longleftrightarrow> (\<exists>b. s = a @ CHR '','' # b)"
proof (induction s arbitrary: a)
  case Nil
  then show ?case by simp
next
  case (Cons c cs)
  show ?case
  proof (cases a)
    case Nil
    then show ?thesis by auto
  next
    case (Cons d a')
    then show ?thesis using Cons.IH [of a'] by auto
  qed
qed

lemma comma_prefixes_hd:
  "CHR '','' \<notin> set a \<Longrightarrow> \<exists>rest. comma_prefixes (a @ CHR '','' # b) = a # rest"
  by (induction a) auto

lemma find_map: "find Q (map h xs) = map_option h (find (\<lambda>x. Q (h x)) xs)"
  by (induction xs) auto

lemma comma_prefixes_find:
  assumes "Q a"
    and "\<And>a' b'. a @ CHR '','' # b = a' @ CHR '','' # b' \<Longrightarrow> length a' < length a \<Longrightarrow> \<not> Q a'"
  shows "find Q (comma_prefixes (a @ CHR '','' # b)) = Some a"
  using assms
proof (induction a arbitrary: Q)
  case Nil
  then show ?case by simp
next
  case (Cons c a)
  have ih: "find (\<lambda>x. Q (c # x)) (comma_prefixes (a @ CHR '','' # b)) = Some a"
  proof (rule Cons.IH)
    show "Q (c # a)" by (rule Cons.prems(1))
  next
    fix a' b' assume "a @ CHR '','' # b = a' @ CHR '','' # b'" "length a' < length a"
    then show "\<not> Q (c # a')" using Cons.prems(2) [of "c # a'" b'] by simp
  qed
  have "\<not> Q []" if "c = CHR '',''"
    using that Cons.prems(2) [of "[]" "a @ CHR '','' # b"] by simp
  then show ?case using ih by (cases "c = CHR '',''") (auto simp: find_map)
qed

lemma wrapped_decomp:
  assumes "wrapped (strip a)"
  shows "\<exists>w0 c y w. a = w0 @ c # y @ c # w \<and> list_all isspace w0 \<and> list_all isspace w
           \<and> in_cls QuoteCls c"
proof -
  from lstrip_decomp [of a] obtain w0 where w0: "a = w0 @ lstrip a" "list_all isspace w0" by blast
  from assms have "lstrip a \<noteq> []" by (auto simp: wrapped_def strip_def rstrip_def)
  then obtain c x where cx: "lstrip a = c # x" by (cases "lstrip a") auto
  then have "strip a = c # rstrip x" by (rule strip_Cons)
  with assms have q: "in_cls QuoteCls c" and ne: "rstrip x \<noteq> []" and l: "last (rstrip x) = c"
    by (simp_all add: wrapped_Cons)
  from rstrip_decomp [of x] obtain w where w: "x = rstrip x @ w" "list_all isspace w" by blast
  from ne l have "rstrip x = butlast (rstrip x) @ [c]" by (metis append_butlast_last_id)
  with w have "x = butlast (rstrip x) @ c # w" by (metis append.assoc append_Cons append_Nil)
  with w0 cx w(2) q show ?thesis by metis
qed

lemma ws_comma_unique:
  assumes "w @ CHR '','' # b = w' @ CHR '','' # b'" and "list_all isspace w" and "list_all isspace w'"
  shows "w = w'"
proof -
  have "takeWhile isspace (v @ CHR '','' # c) = v" if "list_all isspace v" for v c
    using that by (induction v) (auto simp: isspace_def)
  with assms show ?thesis by metis
qed

lemma closing_order:
  assumes eq: "t @ c # w @ CHR '','' # b = y @ c # w' @ CHR '','' # b'"
    and w: "list_all isspace w" and w': "list_all isspace w'" and c: "\<not> isspace c"
    and le: "length t \<le> length y"
  shows "length (t @ c # w) \<le> length (y @ c # w')"
proof (cases "length t = length y")
  case True
  with eq have "t = y" "w @ CHR '','' # b = w' @ CHR '','' # b'" by auto
  with w w' have "w = w'" using ws_comma_unique by blast
  with \<open>t = y\<close> show ?thesis by simp
next
  case False
  with le have lt: "length t < length y" by simp
  from eq have "take (length t) y = t" 
    by (metis append_eq_conv_conj le take_all_iff take_append nat_le_linear append_eq_append_conv_if)
  then obtain z where y: "y = t @ z" by (metis append_take_drop_id)
  with lt have "z \<noteq> []" by auto
  from eq y have "c # w @ CHR '','' # b = z @ c # w' @ CHR '','' # b'" by simp
  with \<open>z \<noteq> []\<close> obtain z' where z: "z = c # z'" and rest: "w @ CHR '','' # b = z' @ c # w' @ CHR '','' # b'"
    by (cases z) auto
  have "length w \<le> length z'"
  proof (rule ccontr)
    assume "\<not> length w \<le> length z'"
    then have "length z' < length w" by simp
    with rest have "w ! length z' = c"
      by (metis nth_append nth_append_length)
    moreover have "isspace (w ! length z')"
      using w \<open>length z' < length w\<close> by (simp add: list_all_iff)
    ultimately show False using c by simp
  qed
  with y z show ?thesis by simp
qed

lemma strip_ws_both:
  assumes "list_all isspace w0" and "list_all isspace w"
  shows "strip (w0 @ x @ w) = strip x"
proof -
  have "rstrip (lstrip (x @ w)) = rstrip (lstrip x)"
  proof (cases "list_all isspace x")
    case True
    then have "lstrip (x @ w) = lstrip w" "lstrip x = []"
      by (simp_all add: lstrip_ws) (simp add: lstrip_def list_all_iff)
    moreover have "lstrip w = []" using assms(2) by (simp add: lstrip_def list_all_iff)
    ultimately show ?thesis by simp
  next
    case False
    then have "lstrip (x @ w) = lstrip x @ w"
      by (auto simp: lstrip_def list_all_iff dropWhile_append1)
    then show ?thesis using assms(2) by (simp add: rstrip_ws)
  qed
  then show ?thesis using assms(1) by (simp add: strip_def lstrip_ws)
qed

lemma run_path_pat:
  "run path_pat g r =
     (case r of
        [] \<Rightarrow> run lazy_pat (g(1 \<mapsto> [])) []
      | c # u \<Rightarrow>
          if in_cls QuoteCls c
          then (case run lazy_pat (g(1 \<mapsto> [c])) u of
                  Some y \<Rightarrow> Some y
                | None \<Rightarrow> run lazy_pat (g(1 \<mapsto> [])) r)
          else run lazy_pat (g(1 \<mapsto> [])) r)"
  unfolding path_pat_def lazy_pat_def
  by (cases r)
     (auto simp: run_group [of 1] cands_def simp del: One_nat_def in_cls.simps split: option.splits)

lemma run_lazy_pat:
  "run lazy_pat (g(1 \<mapsto> q)) u =
     (case find (\<lambda>i. closing q (drop i u)) [0..<Suc (length u)] of
        None \<Rightarrow> None
      | Some i \<Rightarrow> run tail_pat (g(1 \<mapsto> q, 2 \<mapsto> take i u)) (after_closing q (drop i u)))"
proof -
  have "(g(1 \<mapsto> q)) 1 = Some q" by simp
  then show ?thesis unfolding lazy_pat_def by (rule run_path)
qed

lemma comma_not_space: "\<not> isspace CHR '',''"
  by (simp add: isspace_def)

lemma match_some:
  assumes comma: "CHR '','' \<in> set s"
  shows "\<exists>m a b. re_match write_file_pattern s = Some m \<and> s = a @ CHR '','' # b
           \<and> separating_prefix s = Some a
           \<and> strip (group m 2) = strip (unwrap (strip a))
           \<and> strip (group m 4) = strip (unwrap (strip b))"
proof -
  let ?t0 = "lstrip s"
  from lstrip_decomp [of s] obtain w0 where s: "s = w0 @ ?t0" and w0: "list_all isspace w0" by blast
  have nil_ws: "list_all isspace []" by simp
  have w0c: "CHR '','' \<notin> set w0" using w0 comma_not_space by (auto simp: list_all_iff)
  with comma s have ct: "CHR '','' \<in> set ?t0" by (metis Un_iff set_append)
  define quoted_ok where "quoted_ok \<longleftrightarrow>
    (\<exists>c u i. ?t0 = c # u \<and> in_cls QuoteCls c
       \<and> find (\<lambda>i. closing [c] (drop i u)) [0..<Suc (length u)] = Some i)"
  have wrapped_quoted: "quoted_ok \<and> (\<exists>c u y w'. ?t0 = c # u \<and> a' = w0 @ c # y @ c # w'
          \<and> u = y @ c # w' @ CHR '','' # b' \<and> closing [c] (drop (length y) u)
          \<and> list_all isspace w' \<and> in_cls QuoteCls c)"
    if a': "s = a' @ CHR '','' # b'" and wr: "wrapped (strip a')" for a' b'
  proof -
    from wrapped_decomp [OF wr] obtain w1 c y w' where
      d: "a' = w1 @ c # y @ c # w'" "list_all isspace w1" "list_all isspace w'" "in_cls QuoteCls c"
      by blast
    then have "\<not> isspace c" by (simp add: quote_not_space)
    with a' d have t0: "?t0 = c # y @ c # w' @ CHR '','' # b'"
      by (simp add: lstrip_ws lstrip_nonws)
    with s a' d have "w1 = w0" by simp
    let ?u = "y @ c # w' @ CHR '','' # b'"
    have cl: "closing [c] (drop (length y) ?u)"
      using d(3) by (auto simp: closing_def)
    then have "find (\<lambda>i. closing [c] (drop i ?u)) [0..<Suc (length ?u)] \<noteq> None"
      unfolding find_upt_None by (auto intro!: exI [of _ "length y"])
    with t0 d(4) have qo: "quoted_ok" unfolding quoted_ok_def by blast
    have "?t0 = c # ?u \<and> a' = w0 @ c # y @ c # w'
          \<and> ?u = y @ c # w' @ CHR '','' # b' \<and> closing [c] (drop (length y) ?u)
          \<and> list_all isspace w' \<and> in_cls QuoteCls c"
      using t0 d \<open>w1 = w0\<close> cl by (simp del: in_cls.simps)
    with qo show ?thesis by blast
  qed
  have key: "\<exists>m a b. run path_pat Map.empty ?t0 = Some m \<and> s = a @ CHR '','' # b
           \<and> separating_prefix s = Some a
           \<and> strip (group m 2) = strip (unwrap (strip a))
           \<and> strip (group m 4) = strip (unwrap (strip b))"
  proof (cases quoted_ok)
    case True
    then obtain c u i where t0: "?t0 = c # u" and q: "in_cls QuoteCls c"
      and f: "find (\<lambda>i. closing [c] (drop i u)) [0..<Suc (length u)] = Some i"
      unfolding quoted_ok_def by blast
    from q have nc: "\<not> isspace c" by (rule quote_not_space)
    from f have i: "i \<le> length u" and cl: "closing [c] (drop i u)"
      and mn: "\<And>j. j < i \<Longrightarrow> \<not> closing [c] (drop j u)"
      unfolding find_upt_Some by auto
    from cl obtain w b where d: "drop i u = [c] @ w @ CHR '','' # b" and w: "list_all isspace w"
      unfolding closing_def by blast
    have u: "u = take i u @ c # w @ CHR '','' # b"
      using d append_take_drop_id [of i u] by simp
    have ac: "after_closing [c] (drop i u) = b"
      using w by (simp only: d after_closing_eq)
    from run_tail [of "Map.empty(1 \<mapsto> [c], 2 \<mapsto> take i u)" b] obtain q3 g4 where
      tl: "run tail_pat (Map.empty(1 \<mapsto> [c], 2 \<mapsto> take i u)) b
             = Some (Map.empty(1 \<mapsto> [c], 2 \<mapsto> take i u, 3 \<mapsto> q3, 4 \<mapsto> g4))"
      and g4: "strip g4 = strip (unwrap (strip b))" by blast
    let ?m = "Map.empty(1 \<mapsto> [c], 2 \<mapsto> take i u, 3 \<mapsto> q3, 4 \<mapsto> g4)"
    have lz: "run lazy_pat (Map.empty(1 \<mapsto> [c])) u = Some ?m"
      by (simp only: run_lazy_pat f option.case ac tl)
    have run: "run path_pat Map.empty ?t0 = Some ?m"
      by (simp only: run_path_pat t0 list.case q if_True lz option.case)
    let ?a = "w0 @ c # take i u @ c # w"
    have sa: "s = ?a @ CHR '','' # b" using s t0 u by simp
    have "rstrip (take i u @ c # w) = take i u @ [c]"
      using rstrip_ws [OF w, of "take i u @ [c]"] nc by (simp add: rstrip_nonws)
    then have stra: "strip ?a = c # take i u @ [c]"
      using w0 nc by (simp add: strip_ws_nonws)
    then have wa: "wrapped (strip ?a)" using q by (simp add: wrapped_Cons)
    have ua: "unwrap (strip ?a) = take i u" using wa stra by (simp add: unwrap_def)
    have "find (\<lambda>a. wrapped (strip a)) (comma_prefixes (?a @ CHR '','' # b)) = Some ?a"
    proof (rule comma_prefixes_find [where Q = "\<lambda>a. wrapped (strip a)", OF wa])
      fix a' b' assume eq: "?a @ CHR '','' # b = a' @ CHR '','' # b'" and lt: "length a' < length ?a"
      show "\<not> wrapped (strip a')"
      proof
        assume wr: "wrapped (strip a')"
        from eq sa have "s = a' @ CHR '','' # b'" by simp
        from wrapped_quoted [OF this wr] t0 obtain y w' where
          a': "a' = w0 @ c # y @ c # w'" and u': "u = y @ c # w' @ CHR '','' # b'"
          and cl': "closing [c] (drop (length y) u)" and w': "list_all isspace w'"
          by auto
        from mn [of "length y"] cl' have "i \<le> length y" by (meson not_le_imp_less)
        then have "length (take i u) \<le> length y" by simp
        moreover have "take i u @ c # w @ CHR '','' # b = y @ c # w' @ CHR '','' # b'"
          by (rule trans [OF u [symmetric] u'])
        ultimately have "length (take i u @ c # w) \<le> length (y @ c # w')"
          using w w' nc by (rule closing_order [rotated -1])
        with a' lt show False by simp
      qed
    qed
    then have sp: "separating_prefix s = Some ?a"
      unfolding separating_prefix_def using sa by simp
    have "group ?m 2 = take i u" "group ?m 4 = g4" by (simp_all add: group_def)
    with run sa sp ua g4 show ?thesis by (metis (no_types, lifting))
  next
    case False
    have lazy_c: "run lazy_pat (Map.empty(1 \<mapsto> [c])) u = None"
      if "?t0 = c # u" "in_cls QuoteCls c" for c u
    proof -
      from that False have "find (\<lambda>i. closing [c] (drop i u)) [0..<Suc (length u)] = None"
        unfolding quoted_ok_def by (cases "find (\<lambda>i. closing [c] (drop i u)) [0..<Suc (length u)]") auto
      then show ?thesis by (simp only: run_lazy_pat option.case)
    qed
    from ct obtain x y where xy: "?t0 = x @ CHR '','' # y" by (meson split_list)
    then have "drop (length x) ?t0 = [] @ [] @ CHR '','' # y" by simp
    then have "closing [] (drop (length x) ?t0)" unfolding closing_def using nil_ws by blast
    then have "find (\<lambda>i. closing [] (drop i ?t0)) [0..<Suc (length ?t0)] \<noteq> None"
      unfolding find_upt_None using xy by (auto intro!: exI [of _ "length x"])
    then obtain i where f: "find (\<lambda>i. closing [] (drop i ?t0)) [0..<Suc (length ?t0)] = Some i"
      by auto
    then have i: "i \<le> length ?t0" and cl: "closing [] (drop i ?t0)"
      and mn: "\<And>j. j < i \<Longrightarrow> \<not> closing [] (drop j ?t0)"
      unfolding find_upt_Some by auto
    from cl obtain w b where d: "drop i ?t0 = [] @ w @ CHR '','' # b" and w: "list_all isspace w"
      unfolding closing_def by blast
    have t0: "?t0 = take i ?t0 @ w @ CHR '','' # b"
      using d append_take_drop_id [of i ?t0] by simp
    have ac: "after_closing [] (drop i ?t0) = b"
      using w by (simp only: d after_closing_eq)
    from run_tail [of "Map.empty(1 \<mapsto> [], 2 \<mapsto> take i ?t0)" b] obtain q3 g4 where
      tl: "run tail_pat (Map.empty(1 \<mapsto> [], 2 \<mapsto> take i ?t0)) b
             = Some (Map.empty(1 \<mapsto> [], 2 \<mapsto> take i ?t0, 3 \<mapsto> q3, 4 \<mapsto> g4))"
      and g4: "strip g4 = strip (unwrap (strip b))" by blast
    let ?m = "Map.empty(1 \<mapsto> [], 2 \<mapsto> take i ?t0, 3 \<mapsto> q3, 4 \<mapsto> g4)"
    have lz: "run lazy_pat (Map.empty(1 \<mapsto> [])) ?t0 = Some ?m"
      by (simp only: run_lazy_pat f option.case ac tl)
    have run: "run path_pat Map.empty ?t0 = Some ?m"
    proof (cases ?t0)
      case Nil
      with ct show ?thesis by simp
    next
      case (Cons c u)
      show ?thesis
      proof (cases "in_cls QuoteCls c")
        case True
        with Cons have "run lazy_pat (Map.empty(1 \<mapsto> [c])) u = None" by (rule lazy_c)
        with True Cons lz show ?thesis by (simp add: run_path_pat del: One_nat_def in_cls.simps)
      next
        case False
        with Cons lz show ?thesis by (simp add: run_path_pat del: One_nat_def in_cls.simps)
      qed
    qed
    let ?a = "w0 @ take i ?t0 @ w"
    have sa: "s = ?a @ CHR '','' # b" using s t0 by (metis append.assoc)
    have nowrap: "\<not> wrapped (strip a')" if "s = a' @ CHR '','' # b'" for a' b'
      using wrapped_quoted [OF that] False by blast
    have "CHR '','' \<notin> set (take i ?t0)"
    proof
      assume "CHR '','' \<in> set (take i ?t0)"
      then obtain x' y' where x': "take i ?t0 = x' @ CHR '','' # y'" by (meson split_list)
      then have "?t0 = x' @ CHR '','' # (y' @ drop i ?t0)"
        using append_take_drop_id [of i ?t0] by (metis append.assoc append_Cons)
      then have "drop (length x') ?t0 = [] @ [] @ CHR '','' # (y' @ drop i ?t0)"
        by (metis append_Nil append_eq_conv_conj)
      then have "closing [] (drop (length x') ?t0)" unfolding closing_def using nil_ws by blast
      moreover have "length x' < i"
      proof -
        have "length x' < length (take i ?t0)" using x' by simp
        then show ?thesis by simp
      qed
      ultimately show False using mn by blast
    qed
    moreover have "CHR '','' \<notin> set w" using w comma_not_space by (auto simp: list_all_iff)
    ultimately have "CHR '','' \<notin> set ?a" using w0c by simp
    then obtain rest where "comma_prefixes (?a @ CHR '','' # b) = ?a # rest"
      using comma_prefixes_hd by blast
    moreover have "find (\<lambda>a. wrapped (strip a)) (comma_prefixes s) = None"
      unfolding find_None_iff using nowrap by (auto simp: comma_prefixes_mem)
    ultimately have sp: "separating_prefix s = Some ?a"
      unfolding separating_prefix_def using sa by simp
    have "strip ?a = strip (take i ?t0)" using w0 w by (rule strip_ws_both)
    moreover have "\<not> wrapped (strip ?a)" using nowrap sa by blast
    ultimately have ua: "strip (unwrap (strip ?a)) = strip (take i ?t0)"
      by (simp add: unwrap_def strip_strip)
    have "group ?m 2 = take i ?t0" "group ?m 4 = g4" by (simp_all add: group_def)
    with run sa sp ua g4 show ?thesis by (metis (no_types, lifting))
  qed
  then obtain m a b where m: "run path_pat Map.empty ?t0 = Some m" and rest: "s = a @ CHR '','' # b"
    "separating_prefix s = Some a" "strip (group m 2) = strip (unwrap (strip a))"
    "strip (group m 4) = strip (unwrap (strip b))" by blast
  from m have "re_match write_file_pattern s = Some m"
    unfolding re_match_def write_file_pattern_eq by (rule run_ws_first)
  with rest show ?thesis by blast
qed

lemma comma_prefixes_Nil: "CHR '','' \<notin> set s \<Longrightarrow> comma_prefixes s = []"
  by (induction s) auto

lemma parse_refines_spec:
  "parse_write_file_arguments tool_args = spec_write_file_arguments tool_args"
proof (cases "CHR '','' \<in> set tool_args")
  case False
  then have "separating_prefix tool_args = None"
    by (simp add: separating_prefix_def comma_prefixes_Nil)
  with False show ?thesis
    by (simp add: parse_write_file_arguments_def spec_write_file_arguments_def match_none)
next
  case True
  from match_some [OF True] obtain m a b where
    m: "re_match write_file_pattern tool_args = Some m" and s: "tool_args = a @ CHR '','' # b"
    and sp: "separating_prefix tool_args = Some a"
    and g2: "strip (group m 2) = strip (unwrap (strip a))"
    and g4: "strip (group m 4) = strip (unwrap (strip b))" by blast
  from s have "drop (Suc (length a)) tool_args = b" by simp
  with m sp g2 g4 show ?thesis
    by (simp add: parse_write_file_arguments_def spec_write_file_arguments_def)
qed

lemma strip_ends: "strip x \<noteq> [] \<Longrightarrow> \<not> isspace (hd (strip x)) \<and> \<not> isspace (last (strip x))"
proof -
  assume ne: "strip x \<noteq> []"
  then have "lstrip x \<noteq> []" by (auto simp: strip_def rstrip_def)
  then obtain c u where cu: "lstrip x = c # u" by (cases "lstrip x") auto
  then have "strip x = c # rstrip u" "\<not> isspace c" by (rule strip_Cons, rule lstrip_hd)
  moreover have "\<not> isspace (last (strip x))"
    using ne rstrip_last [of "lstrip x"] by (simp add: strip_def)
  ultimately show ?thesis by simp
qed

lemma strip_decomp: "\<exists>w1 w2. x = w1 @ strip x @ w2 \<and> list_all isspace w1 \<and> list_all isspace w2"
proof -
  from lstrip_decomp [of x] obtain w1 where w1: "x = w1 @ lstrip x" "list_all isspace w1" by blast
  from rstrip_decomp [of "lstrip x"] obtain w2 where
    w2: "lstrip x = rstrip (lstrip x) @ w2" "list_all isspace w2" by blast
  from w1(1) w2(1) have "x = w1 @ strip x @ w2" by (simp add: strip_def)
  with w1(2) w2(2) show ?thesis by blast
qed

text \<open>
  C5. For every argument string of a \<open>write_file\<close> call, the parse of
  \<open>execute_tool\<close> is the one the specification describes: path and content are
  separated by the first comma outside the matching quotes around the path, the
  content is everything after that comma and is never split at a comma, each of the
  two loses one level of matching quotes around it, and a string without a comma is
  refused with the error that names the form \<open>'path', 'content'\<close>. The arguments
  \<open>'note.txt', 'line1\nline2'\<close> give the path \<open>note.txt\<close> and the content
  \<open>line1\nline2\<close>.
\<close>

theorem write_file_arguments_parse:
  "parse_write_file_arguments tool_args = spec_write_file_arguments tool_args
   \<and> (CHR '','' \<notin> set tool_args \<longrightarrow>
        parse_write_file_arguments tool_args =
          Inl (error_payload (''Invalid arguments for write_file: '' @ tool_args
                              @ ''. Expected '' @ quoted ''path'' @ '', '' @ quoted ''content'')))
   \<and> (CHR '','' \<in> set tool_args \<longrightarrow>
        (\<exists>a b. tool_args = a @ CHR '','' # b
           \<and> parse_write_file_arguments tool_args
               = Inr [strip (unwrap (strip a)), strip (unwrap (strip b))]))
   \<and> parse_write_file_arguments
         (quoted ''note.txt'' @ '', '' @ quoted (''line1'' @ [CHR 0x0A] @ ''line2''))
       = Inr [''note.txt'', ''line1'' @ [CHR 0x0A] @ ''line2'']"
proof (intro conjI impI)
  show "parse_write_file_arguments tool_args = spec_write_file_arguments tool_args"
    by (rule parse_refines_spec)
next
  assume "CHR '','' \<notin> set tool_args"
  then show "parse_write_file_arguments tool_args =
          Inl (error_payload (''Invalid arguments for write_file: '' @ tool_args
                              @ ''. Expected '' @ quoted ''path'' @ '', '' @ quoted ''content''))"
    by (simp add: parse_write_file_arguments_def match_none)
next
  assume "CHR '','' \<in> set tool_args"
  from match_some [OF this] obtain m a b where
    "re_match write_file_pattern tool_args = Some m" "tool_args = a @ CHR '','' # b"
    "strip (group m 2) = strip (unwrap (strip a))"
    "strip (group m 4) = strip (unwrap (strip b))" by blast
  then show "\<exists>a b. tool_args = a @ CHR '','' # b
           \<and> parse_write_file_arguments tool_args
               = Inr [strip (unwrap (strip a)), strip (unwrap (strip b))]"
    by (auto simp: parse_write_file_arguments_def)
next
  show "parse_write_file_arguments
         (quoted ''note.txt'' @ '', '' @ quoted (''line1'' @ [CHR 0x0A] @ ''line2''))
       = Inr [''note.txt'', ''line1'' @ [CHR 0x0A] @ ''line2'']"
    by code_simp
qed

theorem write_file_arguments_parse_witness:
  "CHR '','' \<in> set ''main.py, print(1, 2)''
   \<and> parse_write_file_arguments ''main.py, print(1, 2)'' = Inr [''main.py'', ''print(1, 2)'']
   \<and> CHR '','' \<notin> set ''main.py''
   \<and> parse_write_file_arguments ''main.py''
       = Inl (error_payload (''Invalid arguments for write_file: main.py. Expected ''
                             @ quoted ''path'' @ '', '' @ quoted ''content''))"
proof -
  have a: "CHR '','' \<in> set ''main.py, print(1, 2)''" by simp
  have b: "CHR '','' \<notin> set ''main.py''" by simp
  have s: "spec_write_file_arguments ''main.py, print(1, 2)'' = Inr [''main.py'', ''print(1, 2)'']"
    by code_simp
  from write_file_arguments_parse [of "''main.py, print(1, 2)''"] s
  have p: "parse_write_file_arguments ''main.py, print(1, 2)'' = Inr [''main.py'', ''print(1, 2)'']"
    by simp
  from write_file_arguments_parse [of "''main.py''", THEN conjunct2, THEN conjunct1] b
  have e: "parse_write_file_arguments ''main.py''
       = Inl (error_payload (''Invalid arguments for write_file: main.py. Expected ''
                             @ quoted ''path'' @ '', '' @ quoted ''content''))"
    by simp
  from a b p e show ?thesis by simp
qed

text \<open>
  C10. Whenever the pattern of \<open>write_file\<close> matches, the path and the content
  handed to \<open>write_file\<close> are the second and the fourth group, each without the
  white space at its two ends: neither starts or ends with a white space character,
  and each group is its stripped text between two runs of white space, so that the
  white space inside is kept. A quoted content \<open>' x'\<close> followed by a line feed
  inside the quotes arrives as \<open>x\<close>.
\<close>

theorem write_file_arguments_stripped:
  assumes "write_file_matches tool_args"
  shows "parse_write_file_arguments tool_args
           = Inr [strip (captured_path tool_args), strip (captured_content tool_args)]
         \<and> execute_tool srv ''write_file'' tool_args fs
           = write_file srv (strip (captured_path tool_args)) (strip (captured_content tool_args)) fs
         \<and> (\<forall>x \<in> set [strip (captured_path tool_args), strip (captured_content tool_args)].
               x = [] \<or> (\<not> isspace (hd x) \<and> \<not> isspace (last x)))
         \<and> (\<exists>w1 w2. captured_path tool_args = w1 @ strip (captured_path tool_args) @ w2
               \<and> list_all isspace w1 \<and> list_all isspace w2)
         \<and> (\<exists>w1 w2. captured_content tool_args = w1 @ strip (captured_content tool_args) @ w2
               \<and> list_all isspace w1 \<and> list_all isspace w2)"
proof -
  from assms obtain m where m: "re_match write_file_pattern tool_args = Some m"
    by (auto simp: write_file_matches_def split: option.splits)
  then have p: "parse_write_file_arguments tool_args
           = Inr [strip (captured_path tool_args), strip (captured_content tool_args)]"
    by (simp add: parse_write_file_arguments_def captured_path_def captured_content_def)
  then have "execute_tool srv ''write_file'' tool_args fs
           = write_file srv (strip (captured_path tool_args)) (strip (captured_content tool_args)) fs"
    by (simp add: execute_tool_def valid_tools_def)
  with p show ?thesis
    using strip_ends [of "captured_path tool_args"] strip_ends [of "captured_content tool_args"]
      strip_decomp [of "captured_path tool_args"] strip_decomp [of "captured_content tool_args"]
    by auto
qed

theorem write_file_arguments_stripped_witness:
  "write_file_matches (quoted ''a.txt'' @ '', '' @ quoted ('' x  y'' @ [CHR 0x0A]))
   \<and> captured_content (quoted ''a.txt'' @ '', '' @ quoted ('' x  y'' @ [CHR 0x0A])) = '' x  y'' @ [CHR 0x0A]
   \<and> parse_write_file_arguments (quoted ''a.txt'' @ '', '' @ quoted ('' x  y'' @ [CHR 0x0A]))
       = Inr [''a.txt'', ''x  y'']"
proof -
  let ?args = "quoted ''a.txt'' @ '', '' @ quoted ('' x  y'' @ [CHR 0x0A])"
  have h: "write_file_matches ?args" by code_simp
  have c: "captured_content ?args = '' x  y'' @ [CHR 0x0A]" by code_simp
  have s: "[strip (captured_path ?args), strip (captured_content ?args)] = [''a.txt'', ''x  y'']"
    by code_simp
  from write_file_arguments_stripped [OF h, of srv0 fs0] s
  have "parse_write_file_arguments ?args = Inr [''a.txt'', ''x  y'']"
    by simp
  with h c show ?thesis by simp
qed

section \<open>Properties of the file system\<close>

lemma os_stat_append:
  "os_stat fs (p @ q) = (case os_stat fs p of Inl e \<Rightarrow> Inl e | Inr n \<Rightarrow> os_stat n q)"
proof (induction p arbitrary: fs)
  case Nil
  then show ?case by simp
next
  case (Cons c cs)
  then show ?case by (cases fs) (auto split: option.splits)
qed

lemma put_stat: "os_stat fs p = Inr n \<Longrightarrow> os_stat (put p x fs) p = Inr x"
proof (induction p arbitrary: fs)
  case Nil
  then show ?case by simp
next
  case (Cons c cs)
  then show ?case by (cases fs) (auto simp: update_conv' split: option.splits)
qed




lemma stat_child:
  "os_stat fs p = Inr (Dir es) \<Longrightarrow>
     os_stat fs (p @ [c]) = (case map_of es c of None \<Rightarrow> Inl ENOENT | Some n \<Rightarrow> Inr n)"
  by (simp add: os_stat_append split: option.splits)













section \<open>Writing a file and reading it back\<close>

lemma universal_newlines_id: "CHR 0x0D \<notin> set s \<Longrightarrow> universal_newlines s = s"
  by (induction s rule: universal_newlines.induct) auto

lemma put_child:
  "os_stat fs p = Inr (Dir es) \<Longrightarrow> put (p @ [c]) x fs = put p (Dir (AList.update c x es)) fs"
proof (induction p arbitrary: fs)
  case Nil
  then show ?case by (auto split: option.splits)
next
  case (Cons d ds)
  then show ?case by (cases fs) (auto split: option.splits)
qed

lemma stat_put_child:
  assumes "os_stat fs p = Inr (Dir es)"
  shows "os_stat (put (p @ [c]) x fs) (p @ [c]) = Inr x"
    and "os_stat (put (p @ [c]) x fs) p = Inr (Dir (AList.update c x es))"
proof -
  have eq: "put (p @ [c]) x fs = put p (Dir (AList.update c x es)) fs"
    using assms by (rule put_child)
  show 2: "os_stat (put (p @ [c]) x fs) p = Inr (Dir (AList.update c x es))"
    unfolding eq using assms by (rule put_stat)
  then show "os_stat (put (p @ [c]) x fs) (p @ [c]) = Inr x"
    by (simp add: stat_child update_conv')
qed

lemma clear_way_butlast: "clear_way fs (d @ [c]) \<Longrightarrow> clear_way fs d"
  by (auto simp: clear_way_def)

lemma clear_way_stat:
  "clear_way fs d \<Longrightarrow> (\<exists>es. os_stat fs d = Inr (Dir es)) \<or> os_stat fs d = Inl ENOENT"
proof (induction d rule: rev_induct)
  case Nil
  then show ?case by (cases fs) (auto simp: clear_way_def is_file_def)
next
  case (snoc c d)
  from snoc.prems have nf: "\<not> is_file fs (d @ [c])" by (simp add: clear_way_def)
  from snoc.IH [OF clear_way_butlast [OF snoc.prems]] show ?case
  proof
    assume "\<exists>es. os_stat fs d = Inr (Dir es)"
    then obtain es where es: "os_stat fs d = Inr (Dir es)" by blast
    show ?thesis
    proof (cases "map_of es c")
      case None
      with es show ?thesis by (simp add: stat_child)
    next
      case (Some n)
      with es have "os_stat fs (d @ [c]) = Inr n" by (simp add: stat_child)
      with nf show ?thesis by (cases n) (auto simp: is_file_def)
    qed
  next
    assume "os_stat fs d = Inl ENOENT"
    then show ?thesis by (simp add: os_stat_append)
  qed
qed

lemma mkdir_parents_ok:
  assumes "clear_way fs d"
  shows "\<exists>fs'. mkdir_parents fs d = (Inr (), fs')
           \<and> (is_dir fs d \<longrightarrow> fs' = fs)
           \<and> (\<not> is_dir fs d \<longrightarrow> os_stat fs' d = Inr (Dir []))"
  using assms
proof (induction d rule: rev_induct)
  case Nil
  then have "is_dir fs []" by (cases fs) (auto simp: clear_way_def is_file_def is_dir_def)
  then show ?case
    by (subst mkdir_parents.simps) (simp add: os_mkdir_def)
next
  case (snoc c d)
  from snoc.prems have cw: "clear_way fs d" by (rule clear_way_butlast)
  from clear_way_stat [OF snoc.prems]
  have self: "(\<exists>es. os_stat fs (d @ [c]) = Inr (Dir es)) \<or> os_stat fs (d @ [c]) = Inl ENOENT" .
  from clear_way_stat [OF cw] show ?case
  proof
    assume "\<exists>es. os_stat fs d = Inr (Dir es)"
    then obtain es where es: "os_stat fs d = Inr (Dir es)" by blast
    show ?thesis
    proof (cases "map_of es c")
      case None
      then have nd: "\<not> is_dir fs (d @ [c])" using es by (simp add: is_dir_def stat_child)
      have "mkdir_parents fs (d @ [c]) = (Inr (), put (d @ [c]) (Dir []) fs)"
        using es None by (subst mkdir_parents.simps) (simp add: os_mkdir_def)
      with nd stat_put_child(1) [OF es] show ?thesis by simp
    next
      case (Some n)
      with es self obtain es' where "os_stat fs (d @ [c]) = Inr (Dir es')"
        by (auto simp: stat_child)
      then have "is_dir fs (d @ [c])" by (simp add: is_dir_def)
      moreover have "mkdir_parents fs (d @ [c]) = (Inr (), fs)"
        using es Some \<open>is_dir fs (d @ [c])\<close>
        by (subst mkdir_parents.simps) (simp add: os_mkdir_def)
      ultimately show ?thesis by simp
    qed
  next
    assume ne: "os_stat fs d = Inl ENOENT"
    then have nd0: "\<not> is_dir fs d" by (simp add: is_dir_def)
    from ne have nd: "\<not> is_dir fs (d @ [c])" by (simp add: is_dir_def os_stat_append)
    from snoc.IH [OF cw] nd0 obtain fs1 where
      m1: "mkdir_parents fs d = (Inr (), fs1)" and s1: "os_stat fs1 d = Inr (Dir [])" by auto
    have "mkdir_exist_ok fs1 (d @ [c]) = (Inr (), put (d @ [c]) (Dir []) fs1)"
      using s1 by (simp add: mkdir_exist_ok_def os_mkdir_def)
    then have "mkdir_parents fs (d @ [c]) = (Inr (), put (d @ [c]) (Dir []) fs1)"
      using ne m1 by (subst mkdir_parents.simps) (simp add: os_mkdir_def)
    with nd stat_put_child(1) [OF s1] show ?thesis by simp
  qed
qed

lemma rooted_nonempty:
  assumes "is_dir fs r" and "\<not> is_dir fs sp"
  shows "sp \<noteq> r"
  using assms by auto

lemma write_text_new:
  assumes d: "os_stat fs d = Inr (Dir es)" and c: "\<And>es'. map_of es c \<noteq> Some (Dir es')"
  shows "write_text fs (d @ [c]) data = (Inr (), put (d @ [c]) (File (Text data)) fs)"
  using d c by (auto simp: write_text_def split: option.splits node.splits)

lemma write_file_ok:
  assumes safe: "get_safe_path srv p = Inr (d @ [c])"
    and way: "clear_way fs d"
    and tgt: "\<not> is_dir fs (d @ [c])"
  shows "\<exists>fs1 es. os_stat fs1 d = Inr (Dir es)
           \<and> write_file srv p content fs =
               ([(''path'', S (str_path (d @ [c]))),
                 (''size'', N (length content)),
                 (''message'', S ''File written successfully'')],
                put (d @ [c]) (File (Text content)) fs1)"
proof -
  from mkdir_parents_ok [OF way] obtain fs1 where
    m: "mkdir_parents fs d = (Inr (), fs1)"
    and same: "is_dir fs d \<Longrightarrow> fs1 = fs"
    and new: "\<not> is_dir fs d \<Longrightarrow> os_stat fs1 d = Inr (Dir [])"
    by blast
  have "\<exists>es. os_stat fs1 d = Inr (Dir es) \<and> (\<forall>es'. map_of es c \<noteq> Some (Dir es'))"
  proof (cases "is_dir fs d")
    case True
    then obtain es where es: "os_stat fs d = Inr (Dir es)"
      by (auto simp: is_dir_def split: sum.splits node.splits)
    from tgt es have "\<forall>es'. map_of es c \<noteq> Some (Dir es')"
      by (auto simp: is_dir_def stat_child)
    with es same [OF True] show ?thesis by auto
  next
    case False
    from new [OF False] show ?thesis by auto
  qed
  then obtain es where es: "os_stat fs1 d = Inr (Dir es)"
    and c: "\<And>es'. map_of es c \<noteq> Some (Dir es')" by blast
  have w: "write_text fs1 (d @ [c]) content = (Inr (), put (d @ [c]) (File (Text content)) fs1)"
    using es c by (rule write_text_new)
  have "write_file srv p content fs =
          ([(''path'', S (str_path (d @ [c]))),
            (''size'', N (length content)),
            (''message'', S ''File written successfully'')],
           put (d @ [c]) (File (Text content)) fs1)"
    by (simp add: write_file_def safe m w catch_io_def del: mkdir_parents.simps)
  with es show ?thesis by blast
qed

lemma read_file_text:
  assumes safe: "get_safe_path srv p = Inr sp"
    and st: "os_stat fs sp = Inr (File (Text s))"
  shows "read_file srv p fs =
           [(''path'', S (str_path sp)),
            (''content'', S (universal_newlines s)),
            (''size'', N (length (universal_newlines s))),
            (''type'', S ''text'')]"
  by (simp add: read_file_def safe st exists_def is_file_def read_text_def catch_def)

text \<open>
  C6 (amended). For every path that resolves inside the root and is within the limits
  of the platform, where the root is a directory, no ancestor of the resolved path is
  a file and the resolved path is not a directory (its intermediate directories may be
  missing), and for every content: \<open>write_file\<close> succeeds and leaves the parent of the
  resolved path a directory, and \<open>read_file\<close> of the same path, on the file system
  that \<open>write_file\<close> leaves, returns the content with each \<open>\r\n\<close> and each other
  \<open>\r\<close> read as \<open>\n\<close>; that is the content written, as it is, when it holds
  no carriage return.
\<close>

theorem write_file_read_file_round_trip:
  assumes safe: "get_safe_path srv p = Inr sp"
    and lim: "within_limits sp"
    and root: "is_dir fs (allowed_directory srv)"
    and anc: "\<forall>q. strict_prefix q sp \<longrightarrow> \<not> is_file fs q"
    and tgt: "\<not> is_dir fs sp"
  shows "fst (write_file srv p content fs) =
           [(''path'', S (str_path sp)),
            (''size'', N (length content)),
            (''message'', S ''File written successfully'')]
         \<and> is_dir (snd (write_file srv p content fs)) (butlast sp)
         \<and> read_file srv p (snd (write_file srv p content fs)) =
           [(''path'', S (str_path sp)),
            (''content'', S (universal_newlines content)),
            (''size'', N (length (universal_newlines content))),
            (''type'', S ''text'')]
         \<and> (CHR 0x0D \<notin> set content \<longrightarrow> universal_newlines content = content)"
proof -
  have ne: "sp \<noteq> []"
  proof
    assume "sp = []"
    with tgt obtain x where "fs = File x" by (cases fs) (auto simp: is_dir_def)
    with root show False by (cases "allowed_directory srv") (auto simp: is_dir_def)
  qed
  define d where "d = butlast sp"
  define c where "c = last sp"
  from ne have sp: "sp = d @ [c]" by (simp add: d_def c_def)
  have way: "clear_way fs d"
    unfolding clear_way_def
  proof (intro allI impI)
    fix q assume "prefix q d"
    then have "strict_prefix q sp" unfolding sp by (auto simp: prefix_def strict_prefix_def)
    with anc show "\<not> is_file fs q" by blast
  qed
  from write_file_ok [OF safe [unfolded sp] way tgt [unfolded sp], of content]
  obtain fs1 es where es: "os_stat fs1 d = Inr (Dir es)"
    and w: "write_file srv p content fs =
              ([(''path'', S (str_path (d @ [c]))),
                (''size'', N (length content)),
                (''message'', S ''File written successfully'')],
               put (d @ [c]) (File (Text content)) fs1)"
    by blast
  have st: "os_stat (put (d @ [c]) (File (Text content)) fs1) (d @ [c]) = Inr (File (Text content))"
    using es by (rule stat_put_child(1))
  have dir: "is_dir (put (d @ [c]) (File (Text content)) fs1) d"
    using stat_put_child(2) [OF es] by (simp add: is_dir_def)
  have r: "read_file srv p (put (d @ [c]) (File (Text content)) fs1) =
             [(''path'', S (str_path (d @ [c]))),
              (''content'', S (universal_newlines content)),
              (''size'', N (length (universal_newlines content))),
              (''type'', S ''text'')]"
    using safe [unfolded sp] st by (rule read_file_text)
  from w dir r universal_newlines_id [of content] show ?thesis unfolding sp by simp
qed

theorem write_file_read_file_round_trip_witness:
  "fst (write_file srv0 ''a/b/c.txt'' ''hi'' fs0) =
     [(''path'', S ''/home/box/a/b/c.txt''),
      (''size'', N 2),
      (''message'', S ''File written successfully'')]
   \<and> \<not> exists fs0 [''home'', ''box'', ''a'']
   \<and> is_dir (snd (write_file srv0 ''a/b/c.txt'' ''hi'' fs0)) [''home'', ''box'', ''a'', ''b'']
   \<and> read_file srv0 ''a/b/c.txt'' (snd (write_file srv0 ''a/b/c.txt'' ''hi'' fs0)) =
     [(''path'', S ''/home/box/a/b/c.txt''),
      (''content'', S ''hi''),
      (''size'', N 2),
      (''type'', S ''text'')]"
proof -
  have safe: "get_safe_path srv0 ''a/b/c.txt'' = Inr [''home'', ''box'', ''a'', ''b'', ''c.txt'']"
    by code_simp
  have root: "is_dir fs0 (allowed_directory srv0)"
    by code_simp
  have missing: "\<not> exists fs0 [''home'', ''box'', ''a'']"
    by code_simp
  have anc: "\<forall>q. strict_prefix q [''home'', ''box'', ''a'', ''b'', ''c.txt''] \<longrightarrow> \<not> is_file fs0 q"
  proof (intro allI impI)
    fix q assume "strict_prefix q [''home'', ''box'', ''a'', ''b'', ''c.txt'']"
    then have "q \<in> set (prefixes [''home'', ''box'', ''a'', ''b'', ''c.txt''])"
      by (simp only: in_set_prefixes strict_prefix_def)
    moreover have "list_all (\<lambda>q. \<not> is_file fs0 q) (prefixes [''home'', ''box'', ''a'', ''b'', ''c.txt''])"
      by code_simp
    ultimately show "\<not> is_file fs0 q" unfolding list_all_iff by blast
  qed
  have tgt: "\<not> is_dir fs0 [''home'', ''box'', ''a'', ''b'', ''c.txt'']"
    by code_simp
  have lim: "within_limits [''home'', ''box'', ''a'', ''b'', ''c.txt'']"
    by code_simp
  have cr: "CHR 0x0D \<notin> set ''hi''"
    by simp
  have u: "universal_newlines ''hi'' = ''hi''"
    by code_simp
  have s: "str_path [''home'', ''box'', ''a'', ''b'', ''c.txt''] = ''/home/box/a/b/c.txt''"
    by code_simp
  have n: "length ''hi'' = 2"
    by simp
  have b: "butlast [''home'', ''box'', ''a'', ''b'', ''c.txt''] = [''home'', ''box'', ''a'', ''b'']"
    by simp
  from write_file_read_file_round_trip [OF safe lim root anc tgt, of "''hi''"] missing
  show ?thesis unfolding s u n b by blast
qed

text \<open>
  C6 as stated fails for a content with a carriage return: \<open>write_file\<close> of
  \<open>"hi\r\n"\<close> to \<open>a/b/c.txt\<close> succeeds, and \<open>read_file\<close> returns \<open>"hi\n"\<close>.
\<close>

theorem write_file_read_file_counterexample:
  "fst (write_file srv0 ''a/b/c.txt'' crlf_text fs0) =
     [(''path'', S ''/home/box/a/b/c.txt''),
      (''size'', N 4),
      (''message'', S ''File written successfully'')]
   \<and> read_file srv0 ''a/b/c.txt'' (snd (write_file srv0 ''a/b/c.txt'' crlf_text fs0)) =
     [(''path'', S ''/home/box/a/b/c.txt''),
      (''content'', S (''hi'' @ [CHR 0x0A])),
      (''size'', N 3),
      (''type'', S ''text'')]
   \<and> ''hi'' @ [CHR 0x0A] \<noteq> crlf_text"
  by code_simp

end
